theory Spec2Isabelle
  imports Complex_Main "HOL-Library.Word" "HOL-Library.Sublist"
begin

section \<open>JavaScript strings\<close>

text \<open>
  A JavaScript string is a sequence of UTF-16 code units; \<open>length\<close>, \<open>slice\<close>, \<open>trim\<close> and a
  regular expression without the \<open>u\<close> flag all work on code units. A string is therefore a
  list of 16-bit words. \<open>js\<close> embeds an ASCII literal.
\<close>

type_synonym jschar = "16 word"
type_synonym jsstring = "jschar list"

definition js :: "string \<Rightarrow> jsstring" where
  "js s = map of_char s"

text \<open>
  The code units of ECMAScript's LineTerminator production: the ones \<open>.\<close> does not match
  when the regular expression has no \<open>s\<close> flag.
\<close>

definition isLineTerminator :: "jschar \<Rightarrow> bool" where
  "isLineTerminator c = (c = 0x0A \<or> c = 0x0D \<or> c = 0x2028 \<or> c = 0x2029)"

text \<open>
  The code units of WhiteSpace and LineTerminator: what \<open>\s\<close> matches and what
  \<open>String.prototype.trim\<close> strips.
\<close>

definition isWhiteSpace :: "jschar \<Rightarrow> bool" where
  "isWhiteSpace c =
     (c = 0x09 \<or> c = 0x0B \<or> c = 0x0C \<or> c = 0x20 \<or> c = 0xA0 \<or> c = 0xFEFF \<or>
      c = 0x1680 \<or> (0x2000 \<le> c \<and> c \<le> 0x200A) \<or> c = 0x202F \<or> c = 0x205F \<or>
      c = 0x3000 \<or> isLineTerminator c)"

definition trim :: "jsstring \<Rightarrow> jsstring" where
  "trim s = rev (dropWhile isWhiteSpace (rev (dropWhile isWhiteSpace s)))"

text \<open>The character classes \<open>[.!?]\<close> and \<open>[,;:]\<close>.\<close>

definition isSentenceEnd :: "jschar \<Rightarrow> bool" where
  "isSentenceEnd c = (c = of_char CHR ''.'' \<or> c = of_char CHR ''!'' \<or> c = of_char CHR ''?'')"

definition isClauseEnd :: "jschar \<Rightarrow> bool" where
  "isClauseEnd c = (c = of_char CHR '','' \<or> c = of_char CHR '';'' \<or> c = of_char CHR '':'')"

text \<open>
  \<open>buffer.match(/^(.*?[T]\s+)/)\<close> for a character class \<open>T\<close>, returning capture group 1 (here
  the whole match) or \<open>None\<close> for \<open>null\<close>. The backtracking matcher tries the lazy \<open>.*?\<close> at
  lengths 0, 1, 2, ...: at each position it first tries \<open>[T]\<close> on the current code unit and
  the greedy \<open>\s+\<close> on what follows (nothing comes after \<open>\s+\<close>, so its longest run is
  taken); failing that, \<open>.\<close> has to consume the current code unit, which without the
  \<open>s\<close> flag (\<open>dotAll = False\<close>) it cannot do for a line terminator.
\<close>

fun lazyMatch :: "(jschar \<Rightarrow> bool) \<Rightarrow> bool \<Rightarrow> jsstring \<Rightarrow> jsstring option" where
  "lazyMatch T dotAll [] = None"
| "lazyMatch T dotAll (c # cs) =
     (if T c \<and> cs \<noteq> [] \<and> isWhiteSpace (hd cs) then Some (c # takeWhile isWhiteSpace cs)
      else if \<not> dotAll \<and> isLineTerminator c then None
      else map_option (Cons c) (lazyMatch T dotAll cs))"

section \<open>The text chunkers\<close>

text \<open>
  \<open>LLMTextChunker\<close> (voice pipeline) and \<open>TextChunker\<close> (API route) hold the same two
  fields. \<open>minChars\<close> is a constructor argument of the first (default 20) and the
  constant 20 in the second; it is compared with a length, and is a natural number here.
\<close>

record chunker =
  buffer :: jsstring
  minChars :: nat

definition LLMTextChunker_new :: "nat \<Rightarrow> chunker" where
  "LLMTextChunker_new n = \<lparr>buffer = [], minChars = n\<rparr>"

definition TextChunker_new :: chunker where
  "TextChunker_new = \<lparr>buffer = [], minChars = 20\<rparr>"

text \<open>
  The body shared by \<open>addToken\<close> and \<open>add\<close> once the fragment is appended: the two tests, in
  order, on the buffer \<open>buf\<close>. The result is the matched prefix that is to be consumed. The
  two methods differ in the \<open>s\<close> flag of their regular expressions only.
\<close>

definition boundaryMatch :: "bool \<Rightarrow> nat \<Rightarrow> jsstring \<Rightarrow> jsstring option" where
  "boundaryMatch dotAll minC buf =
     (let sentenceMatch = lazyMatch isSentenceEnd dotAll buf in
      if sentenceMatch \<noteq> None \<and> minC \<le> length (the sentenceMatch) then sentenceMatch
      else if 50 < length buf then
        (let clauseMatch = lazyMatch isClauseEnd dotAll buf in
         if clauseMatch \<noteq> None \<and> minC \<le> length (the clauseMatch) then clauseMatch
         else None)
      else None)"

text \<open>\<open>emitChunk\<close>: the argument handed to the \<open>onChunk\<close> callback.\<close>

definition emitChunk :: "jsstring \<Rightarrow> jsstring" where
  "emitChunk chunk = trim chunk"

text \<open>
  \<open>LLMTextChunker.addToken\<close> and \<open>flush\<close>: the result lists the arguments of the
  \<open>onChunk\<close> calls made, in order, beside the new state.
\<close>

definition LLMTextChunker_addToken :: "chunker \<Rightarrow> jsstring \<Rightarrow> jsstring list \<times> chunker" where
  "LLMTextChunker_addToken c token =
     (let buf = buffer c @ token in
      case boundaryMatch False (minChars c) buf of
        Some m \<Rightarrow> ([emitChunk m], c\<lparr>buffer := drop (length m) buf\<rparr>)
      | None \<Rightarrow> ([], c\<lparr>buffer := buf\<rparr>))"

definition LLMTextChunker_flush :: "chunker \<Rightarrow> jsstring list \<times> chunker" where
  "LLMTextChunker_flush c =
     (if trim (buffer c) \<noteq> [] then ([emitChunk (trim (buffer c))], c\<lparr>buffer := []\<rparr>)
      else ([], c))"

text \<open>\<open>TextChunker.add\<close> and \<open>flush\<close>: the returned string (\<open>None\<close> for \<open>null\<close>) and the new state.\<close>

definition TextChunker_add :: "chunker \<Rightarrow> jsstring \<Rightarrow> jsstring option \<times> chunker" where
  "TextChunker_add c text =
     (let buf = buffer c @ text in
      case boundaryMatch True (minChars c) buf of
        Some m \<Rightarrow> (Some (trim m), c\<lparr>buffer := drop (length m) buf\<rparr>)
      | None \<Rightarrow> (None, c\<lparr>buffer := buf\<rparr>))"

definition TextChunker_flush :: "chunker \<Rightarrow> jsstring option \<times> chunker" where
  "TextChunker_flush c =
     (if trim (buffer c) \<noteq> [] then (Some (trim (buffer c)), c\<lparr>buffer := []\<rparr>)
      else (None, c))"

text \<open>
  Feeding a fragment sequence and flushing once, as \<open>VoicePipeline.processToken\<close> /
  \<open>finalize\<close> drive the \<open>LLMTextChunker\<close>: every \<open>onChunk\<close> argument, in call order.
\<close>

fun LLMTextChunker_feed :: "chunker \<Rightarrow> jsstring list \<Rightarrow> jsstring list \<times> chunker" where
  "LLMTextChunker_feed c [] = ([], c)"
| "LLMTextChunker_feed c (t # ts) =
     (case LLMTextChunker_addToken c t of (out, c') \<Rightarrow>
        (case LLMTextChunker_feed c' ts of (outs, c'') \<Rightarrow> (out @ outs, c'')))"

definition LLMTextChunker_run :: "chunker \<Rightarrow> jsstring list \<Rightarrow> jsstring list \<times> chunker" where
  "LLMTextChunker_run c ts =
     (case LLMTextChunker_feed c ts of (outs, c') \<Rightarrow>
        (case LLMTextChunker_flush c' of (out, c'') \<Rightarrow> (outs @ out, c'')))"

text \<open>
  The same for the \<open>TextChunker\<close>, as the loops of \<open>streamTextWithTTS\<close> and \<open>streamWithAudio\<close>
  drive it: \<open>if (ttsChunk)\<close> and \<open>if (remaining)\<close> keep a returned string that is neither
  \<open>null\<close> nor empty.
\<close>

definition truthy :: "jsstring option \<Rightarrow> jsstring list" where
  "truthy r = (case r of None \<Rightarrow> [] | Some s \<Rightarrow> if s = [] then [] else [s])"

fun TextChunker_feed :: "chunker \<Rightarrow> jsstring list \<Rightarrow> jsstring list \<times> chunker" where
  "TextChunker_feed c [] = ([], c)"
| "TextChunker_feed c (t # ts) =
     (case TextChunker_add c t of (r, c') \<Rightarrow>
        (case TextChunker_feed c' ts of (outs, c'') \<Rightarrow> (truthy r @ outs, c'')))"

definition TextChunker_run :: "chunker \<Rightarrow> jsstring list \<Rightarrow> jsstring list \<times> chunker" where
  "TextChunker_run c ts =
     (case TextChunker_feed c ts of (outs, c') \<Rightarrow>
        (case TextChunker_flush c' of (r, c'') \<Rightarrow> (outs @ truthy r, c'')))"

text \<open>
  The specification's boundary, in its own words: \<open>p\<close> is a prefix of the buffer that ends in
  a terminator which the buffer follows immediately with whitespace.
\<close>

definition endsAtBoundary :: "(jschar \<Rightarrow> bool) \<Rightarrow> jsstring \<Rightarrow> jsstring \<Rightarrow> bool" where
  "endsAtBoundary T buf p =
     (p \<noteq> [] \<and> T (last p) \<and> length p < length buf \<and> take (length p) buf = p \<and>
      isWhiteSpace (buf ! length p))"

text \<open>\<open>p\<close> is the shortest such prefix: no shorter prefix of the buffer ends at a boundary.\<close>

definition isShortestBoundary :: "(jschar \<Rightarrow> bool) \<Rightarrow> jsstring \<Rightarrow> jsstring \<Rightarrow> bool" where
  "isShortestBoundary T buf p =
     (endsAtBoundary T buf p \<and>
      list_all (\<lambda>n. \<not> endsAtBoundary T buf (take n buf)) [0..<length p])"

text \<open>The prefix \<open>p\<close> together with the whole run of whitespace that follows it in the buffer.\<close>

definition withTrailingSpace :: "jsstring \<Rightarrow> jsstring \<Rightarrow> jsstring" where
  "withTrailingSpace buf p = p @ takeWhile isWhiteSpace (drop (length p) buf)"

text \<open>
  The boundary the code acts on: \<open>p\<close> is the shortest prefix ending at a boundary, without
  the \<open>s\<close> flag no line terminator stands before its terminator, and \<open>p\<close> with its trailing
  whitespace is at least \<open>minC\<close> code units long.
\<close>

definition boundaryHit :: "(jschar \<Rightarrow> bool) \<Rightarrow> bool \<Rightarrow> nat \<Rightarrow> jsstring \<Rightarrow> jsstring \<Rightarrow> bool" where
  "boundaryHit T dotAll minC buf p =
     (isShortestBoundary T buf p \<and> (dotAll \<or> \<not> list_ex isLineTerminator (butlast p)) \<and>
      minC \<le> length (withTrailingSpace buf p))"

text \<open>The chunker once the prefix \<open>p\<close> and the whitespace after it are removed from the buffer.\<close>

definition consume :: "chunker \<Rightarrow> jsstring \<Rightarrow> jsstring \<Rightarrow> chunker" where
  "consume c buf p = c\<lparr>buffer := drop (length (withTrailingSpace buf p)) buf\<rparr>"

text \<open>The strings of a list that are not empty, in order.\<close>

definition nonEmpty :: "jsstring list \<Rightarrow> jsstring list" where
  "nonEmpty xs = filter (\<lambda>p. p \<noteq> []) xs"

text \<open>The text of the architecture notes' chunking example, in parts.\<close>

definition sentenceA :: jsstring where
  "sentenceA = js ''Sure, let's break this down''"

definition sentenceB :: jsstring where
  "sentenceB = js ''First, here's how it works''"

definition fullStop :: jschar where
  "fullStop = of_char CHR ''.''"

definition blank :: jschar where
  "blank = of_char CHR '' ''"

section \<open>The audio players\<close>

text \<open>
  Times (the device clock \<open>currentTime\<close>, start times, durations) are JavaScript numbers.
  The model leaves their type \<open>'a\<close> open: it only uses the order, the addition and, in one
  place, zero of that type, so what is proved holds for whatever addition the numbers
  have. The order is linear: \<open>NaN\<close> is no time. The device clock is read from the audio
  context by the code; here each operation takes the value \<open>now\<close> it would read.
  \<open>AudioBuffer.duration\<close> is computed by the browser from the number of sample frames and
  the sample rate; the model takes it as the function \<open>bufferDuration\<close> of these two.
\<close>

type_synonym byte = "8 word"

text \<open>
  What the calls made by the players can throw: \<open>new Int16Array(buffer)\<close> on a buffer of odd
  byte length (\<open>RangeError\<close>), \<open>createBuffer\<close> with a length of zero frames
  (\<open>NotSupportedError\<close>); the errors \<open>streamTTSFromHTTP\<close> and \<open>sendMessage\<close> throw themselves on a
  status that is not \<open>ok\<close> (with the status) and on a missing body; and a rejected \<open>fetch\<close> or
  \<open>read\<close>, with its message.
\<close>

datatype error =
    RangeError
  | NotSupportedError
  | RequestFailed nat
  | NoResponseBody
  | NetworkError jsstring

text \<open>
  \<open>new Int16Array(pcmData)\<close> on a buffer of even length: signed 16-bit samples, low byte
  first, the sign written out.
\<close>

fun int16Array :: "byte list \<Rightarrow> int list" where
  "int16Array (lo # hi # rest) =
     (let v = uint lo + 256 * uint hi in if v < 32768 then v else v - 65536) # int16Array rest"
| "int16Array [lo] = []"
| "int16Array [] = []"

text \<open>The loop filling \<open>float32Array\<close>. A 16-bit integer divided by 32768 is exact in single precision.\<close>

definition toFloat32 :: "int list \<Rightarrow> rat list" where
  "toFloat32 int16 = map (\<lambda>v. of_int v / 32768) int16"

text \<open>
  An \<open>AudioBufferSourceNode\<close> once \<open>start\<close> has been called on it: its buffer, the start time
  given, the buffer's duration, and the device time of a \<open>stop()\<close> call if there was one.
\<close>

record 'a sourceNode =
  channelData :: "rat list"
  startAt :: 'a
  duration :: 'a
  stoppedAt :: "'a option"

text \<open>
  An \<open>AudioContext\<close> is the list of the source nodes started on it, in creation order; the
  handles a player retains are positions in that list. \<open>None\<close> is \<open>null\<close>.
\<close>

type_synonym 'a audioContext = "'a sourceNode list"

definition scheduleSource ::
  "(nat \<Rightarrow> nat \<Rightarrow> 'a) \<Rightarrow> nat \<Rightarrow> rat list \<Rightarrow> 'a \<Rightarrow> 'a sourceNode" where
  "scheduleSource bufferDuration rate float32Array startTime =
     \<lparr>channelData = float32Array, startAt = startTime,
      duration = bufferDuration (length float32Array) rate, stoppedAt = None\<rparr>"

text \<open>
  \<open>source.stop()\<close> at device time \<open>now\<close>; on a node that was stopped before, the earlier stop
  stands. \<open>stopSources\<close> is the \<open>forEach\<close> over the retained handles; a handle that is no
  position of the context is skipped, as the \<open>try\<close>/\<open>catch\<close> around \<open>stop()\<close> would.
\<close>

definition stopSource :: "'a \<Rightarrow> 'a sourceNode \<Rightarrow> 'a sourceNode" where
  "stopSource now s = (case stoppedAt s of None \<Rightarrow> s\<lparr>stoppedAt := Some now\<rparr> | Some t \<Rightarrow> s)"

fun stopSources :: "'a \<Rightarrow> nat list \<Rightarrow> 'a audioContext \<Rightarrow> 'a audioContext" where
  "stopSources now [] nodes = nodes"
| "stopSources now (h # hs) nodes =
     stopSources now hs
       (if h < length nodes then nodes[h := stopSource now (nodes ! h)] else nodes)"

subsection \<open>AudioStreamPlayer (voice pipeline)\<close>

record 'a AudioStreamPlayer =
  audioContext :: "'a audioContext option"
  nextStartTime :: 'a
  sampleRate :: nat
  isPlaying :: bool
  scheduledBuffers :: "nat list"

definition AudioStreamPlayer_new :: "nat \<Rightarrow> ('a::zero) AudioStreamPlayer" where
  "AudioStreamPlayer_new rate =
     \<lparr>audioContext = None, nextStartTime = 0, sampleRate = rate, isPlaying = False,
      scheduledBuffers = []\<rparr>"

definition AudioStreamPlayer_init :: "'a \<Rightarrow> 'a AudioStreamPlayer \<Rightarrow> 'a AudioStreamPlayer" where
  "AudioStreamPlayer_init now p =
     p\<lparr>audioContext := (case audioContext p of None \<Rightarrow> Some [] | Some nodes \<Rightarrow> Some nodes),
       nextStartTime := now, isPlaying := True\<rparr>"

definition AudioStreamPlayer_addChunk ::
  "(nat \<Rightarrow> nat \<Rightarrow> 'a) \<Rightarrow> 'a \<Rightarrow> ('a::{linorder,plus}) AudioStreamPlayer \<Rightarrow> byte list \<Rightarrow>
   error + 'a AudioStreamPlayer" where
  "AudioStreamPlayer_addChunk bufferDuration now p pcmData =
     (case audioContext p of
        None \<Rightarrow> Inr p
      | Some nodes \<Rightarrow>
          if \<not> isPlaying p then Inr p
          else if odd (length pcmData) then Inl RangeError
          else
            (let float32Array = toFloat32 (int16Array pcmData) in
             if length float32Array = 0 then Inl NotSupportedError
             else
               (let startTime = max (nextStartTime p) now;
                    source = scheduleSource bufferDuration (sampleRate p) float32Array startTime
                in Inr (p\<lparr>audioContext := Some (nodes @ [source]),
                          nextStartTime := startTime + duration source,
                          scheduledBuffers := scheduledBuffers p @ [length nodes]\<rparr>))))"

definition AudioStreamPlayer_stop :: "'a \<Rightarrow> ('a::zero) AudioStreamPlayer \<Rightarrow> 'a AudioStreamPlayer" where
  "AudioStreamPlayer_stop now p =
     p\<lparr>isPlaying := False,
       audioContext := map_option (stopSources now (scheduledBuffers p)) (audioContext p),
       scheduledBuffers := [],
       nextStartTime := 0\<rparr>"

definition AudioStreamPlayer_close :: "'a \<Rightarrow> ('a::zero) AudioStreamPlayer \<Rightarrow> 'a AudioStreamPlayer" where
  "AudioStreamPlayer_close now p = (AudioStreamPlayer_stop now p)\<lparr>audioContext := None\<rparr>"

subsection \<open>AudioQueuePlayer (React hook)\<close>

record 'a AudioQueuePlayer =
  queueContext :: "'a audioContext option"
  queueNextStartTime :: 'a
  queueSampleRate :: nat
  sources :: "nat list"

definition AudioQueuePlayer_new :: "nat \<Rightarrow> ('a::zero) AudioQueuePlayer" where
  "AudioQueuePlayer_new rate =
     \<lparr>queueContext = None, queueNextStartTime = 0, queueSampleRate = rate, sources = []\<rparr>"

definition AudioQueuePlayer_init :: "'a \<Rightarrow> 'a AudioQueuePlayer \<Rightarrow> 'a AudioQueuePlayer" where
  "AudioQueuePlayer_init now p =
     p\<lparr>queueContext := (case queueContext p of None \<Rightarrow> Some [] | Some nodes \<Rightarrow> Some nodes),
       queueNextStartTime := now\<rparr>"

definition AudioQueuePlayer_addPCM ::
  "(nat \<Rightarrow> nat \<Rightarrow> 'a) \<Rightarrow> 'a \<Rightarrow> ('a::{linorder,plus}) AudioQueuePlayer \<Rightarrow> byte list \<Rightarrow>
   error + 'a AudioQueuePlayer" where
  "AudioQueuePlayer_addPCM bufferDuration now p pcmBuffer =
     (case queueContext p of
        None \<Rightarrow> Inr p
      | Some nodes \<Rightarrow>
          if odd (length pcmBuffer) then Inl RangeError
          else
            (let float32Array = toFloat32 (int16Array pcmBuffer) in
             if length float32Array = 0 then Inl NotSupportedError
             else
               (let startTime = max (queueNextStartTime p) now;
                    source = scheduleSource bufferDuration (queueSampleRate p) float32Array startTime
                in Inr (p\<lparr>queueContext := Some (nodes @ [source]),
                          queueNextStartTime := startTime + duration source,
                          sources := sources p @ [length nodes]\<rparr>))))"


definition AudioQueuePlayer_stop :: "'a \<Rightarrow> 'a AudioQueuePlayer \<Rightarrow> 'a AudioQueuePlayer" where
  "AudioQueuePlayer_stop now p =
     (case queueContext p of
        None \<Rightarrow> p\<lparr>sources := []\<rparr>
      | Some nodes \<Rightarrow>
          p\<lparr>queueContext := Some (stopSources now (sources p) nodes), sources := [],
            queueNextStartTime := now\<rparr>)"

definition AudioQueuePlayer_close :: "'a \<Rightarrow> 'a AudioQueuePlayer \<Rightarrow> 'a AudioQueuePlayer" where
  "AudioQueuePlayer_close now p = (AudioQueuePlayer_stop now p)\<lparr>queueContext := None\<rparr>"

text \<open>
  The retained handles are sound for a context: without a context nothing is retained;
  with one, every retained handle is a node of the context on which \<open>stop\<close> was not
  called, and every node of the context is retained or was stopped.
\<close>

definition handlesOk :: "nat list \<Rightarrow> 'a audioContext option \<Rightarrow> bool" where
  "handlesOk hs ctx =
     (case ctx of
        None \<Rightarrow> hs = []
      | Some nodes \<Rightarrow>
          list_all (\<lambda>h. h < length nodes \<and> stoppedAt (nodes ! h) = None) hs \<and>
          list_all (\<lambda>i. i \<in> set hs \<or> stoppedAt (nodes ! i) \<noteq> None) [0..<length nodes])"

text \<open>The states a player can be in: built by the constructor, then driven by its methods.\<close>

inductive streamPlayerState ::
  "(nat \<Rightarrow> nat \<Rightarrow> 'a) \<Rightarrow> ('a::{linorder,plus,zero}) AudioStreamPlayer \<Rightarrow> bool"
  for bufferDuration :: "nat \<Rightarrow> nat \<Rightarrow> 'a" where
    constructed: "streamPlayerState bufferDuration (AudioStreamPlayer_new rate)"
  | initialised:
      "streamPlayerState bufferDuration p \<Longrightarrow>
       streamPlayerState bufferDuration (AudioStreamPlayer_init now p)"
  | added:
      "streamPlayerState bufferDuration p \<Longrightarrow>
       AudioStreamPlayer_addChunk bufferDuration now p pcmData = Inr p' \<Longrightarrow>
       streamPlayerState bufferDuration p'"
  | stopped:
      "streamPlayerState bufferDuration p \<Longrightarrow>
       streamPlayerState bufferDuration (AudioStreamPlayer_stop now p)"
  | closed:
      "streamPlayerState bufferDuration p \<Longrightarrow>
       streamPlayerState bufferDuration (AudioStreamPlayer_close now p)"

inductive queuePlayerState ::
  "(nat \<Rightarrow> nat \<Rightarrow> 'a) \<Rightarrow> ('a::{linorder,plus,zero}) AudioQueuePlayer \<Rightarrow> bool"
  for bufferDuration :: "nat \<Rightarrow> nat \<Rightarrow> 'a" where
    constructed: "queuePlayerState bufferDuration (AudioQueuePlayer_new rate)"
  | initialised:
      "queuePlayerState bufferDuration p \<Longrightarrow>
       queuePlayerState bufferDuration (AudioQueuePlayer_init now p)"
  | added:
      "queuePlayerState bufferDuration p \<Longrightarrow>
       AudioQueuePlayer_addPCM bufferDuration now p pcmBuffer = Inr p' \<Longrightarrow>
       queuePlayerState bufferDuration p'"
  | stopped:
      "queuePlayerState bufferDuration p \<Longrightarrow>
       queuePlayerState bufferDuration (AudioQueuePlayer_stop now p)"
  | closed:
      "queuePlayerState bufferDuration p \<Longrightarrow>
       queuePlayerState bufferDuration (AudioQueuePlayer_close now p)"

text \<open>The node scheduled last on a player's context.\<close>

definition lastScheduled :: "'a audioContext option \<Rightarrow> 'a sourceNode" where
  "lastScheduled ctx = last (the ctx)"

subsection \<open>Chunked-stream mode: \<open>streamTTSFromHTTP\<close>\<close>




text \<open>A byte range that \<open>addChunk\<close> accepts on a playing player: whole samples, at least one.\<close>

definition wholeSamples :: "byte list \<Rightarrow> bool" where
  "wholeSamples val = (even (length val) \<and> val \<noteq> [])"

section \<open>The voice pipeline\<close>

text \<open>
  The JSON text frame \<open>sendText\<close> sends. Of the \<open>TTSWebSocketClient\<close>, \<open>sendText\<close> uses the
  socket only: whether it is there and open, and, here, the frames passed to \<open>ws.send\<close> so
  far, in order.
\<close>

record ttsMessage =
  msgText :: jsstring
  msgLanguage :: jsstring
  is_final :: bool

record TTSWebSocketClient =
  wsOpen :: bool
  sent :: "ttsMessage list"

definition TTSWebSocketClient_sendText ::
  "TTSWebSocketClient \<Rightarrow> jsstring \<Rightarrow> jsstring \<Rightarrow> bool \<Rightarrow> TTSWebSocketClient" where
  "TTSWebSocketClient_sendText client txt lang isFinal =
     (if wsOpen client
      then client\<lparr>sent := sent client @ [\<lparr>msgText = txt, msgLanguage = lang, is_final = isFinal\<rparr>]\<rparr>
      else client)"

record VoicePipeline =
  ttsClient :: TTSWebSocketClient
  chunker :: chunker
  language :: jsstring

text \<open>The \<open>onChunk\<close> callback the constructor gives the chunker.\<close>

definition VoicePipeline_onChunk :: "jsstring \<Rightarrow> TTSWebSocketClient \<Rightarrow> jsstring \<Rightarrow> TTSWebSocketClient" where
  "VoicePipeline_onChunk lang client chunk = TTSWebSocketClient_sendText client chunk lang False"

definition VoicePipeline_processToken :: "VoicePipeline \<Rightarrow> jsstring \<Rightarrow> VoicePipeline" where
  "VoicePipeline_processToken vp token =
     (case LLMTextChunker_addToken (chunker vp) token of
        (chunks, c') \<Rightarrow>
          vp\<lparr>chunker := c',
             ttsClient := foldl (VoicePipeline_onChunk (language vp)) (ttsClient vp) chunks\<rparr>)"

definition VoicePipeline_finalize :: "VoicePipeline \<Rightarrow> VoicePipeline" where
  "VoicePipeline_finalize vp =
     (case LLMTextChunker_flush (chunker vp) of
        (chunks, c') \<Rightarrow>
          vp\<lparr>chunker := c',
             ttsClient :=
               TTSWebSocketClient_sendText
                 (foldl (VoicePipeline_onChunk (language vp)) (ttsClient vp) chunks)
                 [] (language vp) True\<rparr>)"

section \<open>The API route\<close>



datatype event =
    TokenEvent jsstring
  | AudioEvent jsstring nat jsstring
  | DoneEvent jsstring
  | ErrorEvent jsstring





section \<open>The React hook\<close>









definition isErrorEvent :: "event \<Rightarrow> bool" where
  "isErrorEvent e = (case e of ErrorEvent message \<Rightarrow> True | _ \<Rightarrow> False)"

definition isTokenEvent :: "event \<Rightarrow> bool" where
  "isTokenEvent e = (case e of TokenEvent t \<Rightarrow> True | _ \<Rightarrow> False)"

definition isAudioEvent :: "event \<Rightarrow> bool" where
  "isAudioEvent e = (case e of AudioEvent audio index phrase \<Rightarrow> True | _ \<Rightarrow> False)"



section \<open>Strings: basic facts\<close>

lemma trim_decomp:
  "s = takeWhile isWhiteSpace s @ trim s @ rev (takeWhile isWhiteSpace (rev (dropWhile isWhiteSpace s)))"
proof -
  let ?t = "dropWhile isWhiteSpace s"
  have "?t = trim s @ rev (takeWhile isWhiteSpace (rev ?t))"
    unfolding trim_def by (metis rev_append rev_rev_ident takeWhile_dropWhile_id)
  moreover have "s = takeWhile isWhiteSpace s @ ?t"
    by simp
  ultimately show ?thesis by metis
qed

lemma filter_takeWhile_ws [simp]: "filter (\<lambda>x. \<not> P x) (takeWhile P s) = []"
  by (induction s) auto

lemma filter_rev_takeWhile_ws [simp]: "filter (\<lambda>x. \<not> P x) (rev (takeWhile P s)) = []"
  by (simp flip: rev_filter)

lemma filter_trim: "filter (\<lambda>x. \<not> isWhiteSpace x) (trim s) = filter (\<lambda>x. \<not> isWhiteSpace x) s"
proof -
  have "filter (\<lambda>x. \<not> isWhiteSpace x) s =
        filter (\<lambda>x. \<not> isWhiteSpace x)
          (takeWhile isWhiteSpace s @ trim s @ rev (takeWhile isWhiteSpace (rev (dropWhile isWhiteSpace s))))"
    using trim_decomp [of s] by simp
  then show ?thesis by simp
qed

lemma trim_Nil [simp]: "trim [] = []"
  by (simp add: trim_def)

lemma all_dropWhile: "(\<forall>x \<in> set (dropWhile P s). P x) \<longleftrightarrow> (\<forall>x \<in> set s. P x)"
  by (induction s) auto

lemma trim_eq_Nil_iff: "trim s = [] \<longleftrightarrow> (\<forall>x \<in> set s. isWhiteSpace x)"
  by (simp add: trim_def dropWhile_eq_Nil_conv all_dropWhile)

lemma trim_hd: "trim s \<noteq> [] \<Longrightarrow> \<not> isWhiteSpace (hd (trim s))"
proof -
  assume ne: "trim s \<noteq> []"
  let ?t = "dropWhile isWhiteSpace s"
  have "?t = [] \<Longrightarrow> trim s = []" by (simp add: trim_def all_dropWhile)
  with ne have tne: "?t \<noteq> []" by blast
  then have h: "\<not> isWhiteSpace (hd ?t)" by (rule hd_dropWhile)
  have "?t = trim s @ rev (takeWhile isWhiteSpace (rev ?t))"
    unfolding trim_def by (metis rev_append rev_rev_ident takeWhile_dropWhile_id)
  then have "hd ?t = hd (trim s)" using ne by (metis hd_append2)
  with h show ?thesis by simp
qed

lemma trim_last: "trim s \<noteq> [] \<Longrightarrow> \<not> isWhiteSpace (last (trim s))"
proof -
  assume ne: "trim s \<noteq> []"
  let ?r = "dropWhile isWhiteSpace (rev (dropWhile isWhiteSpace s))"
  have "?r \<noteq> []" using ne by (simp add: trim_def)
  then have "\<not> isWhiteSpace (hd ?r)" by (rule hd_dropWhile)
  moreover have "last (trim s) = hd ?r" by (simp add: trim_def last_rev)
  ultimately show ?thesis by simp
qed

lemma dropWhile_id: "xs = [] \<or> \<not> P (hd xs) \<Longrightarrow> dropWhile P xs = xs"
  by (cases xs) auto

lemma trim_id: "s = [] \<or> (\<not> isWhiteSpace (hd s) \<and> \<not> isWhiteSpace (last s)) \<Longrightarrow> trim s = s"
proof -
  assume a: "s = [] \<or> (\<not> isWhiteSpace (hd s) \<and> \<not> isWhiteSpace (last s))"
  then have 1: "dropWhile isWhiteSpace s = s" by (intro dropWhile_id) auto
  have "rev s = [] \<or> \<not> isWhiteSpace (hd (rev s))" using a by (auto simp: hd_rev)
  then have "dropWhile isWhiteSpace (rev s) = rev s" by (rule dropWhile_id)
  with 1 show ?thesis by (simp add: trim_def)
qed

lemma trim_trim [simp]: "trim (trim s) = trim s"
  by (rule trim_id) (use trim_hd [of s] trim_last [of s] in blast)

lemmas js_eval = js_def isSentenceEnd_def isClauseEnd_def isWhiteSpace_def isLineTerminator_def

section \<open>The regular expressions\<close>

lemma trim_append_ws:
  assumes "\<forall>x \<in> set w. isWhiteSpace x"
  shows "trim (p @ w) = trim p"
proof (cases "\<forall>x \<in> set p. isWhiteSpace x")
  case True
  then have "trim p = []" by (simp add: trim_eq_Nil_iff)
  moreover have "trim (p @ w) = []" using True assms by (auto simp: trim_eq_Nil_iff)
  ultimately show ?thesis by simp
next
  case False
  then have "dropWhile isWhiteSpace (p @ w) = dropWhile isWhiteSpace p @ w"
    by (auto simp: dropWhile_append)
  moreover have "dropWhile isWhiteSpace (rev w @ rev (dropWhile isWhiteSpace p)) =
      dropWhile isWhiteSpace (rev (dropWhile isWhiteSpace p))"
    using assms by (intro dropWhile_append2) simp
  ultimately show ?thesis by (simp add: trim_def)
qed

lemma lazyMatch_prefix: "lazyMatch T d xs = Some m \<Longrightarrow> xs = m @ drop (length m) xs"
proof (induction xs arbitrary: m)
  case Nil
  then show ?case by simp
next
  case (Cons c cs)
  show ?case
  proof (cases "T c \<and> cs \<noteq> [] \<and> isWhiteSpace (hd cs)")
    case True
    with Cons.prems have "m = c # takeWhile isWhiteSpace cs" by simp
    then show ?thesis by (simp flip: dropWhile_eq_drop)
  next
    case False
    with Cons.prems obtain m' where m': "lazyMatch T d cs = Some m'" "m = c # m'"
      by (auto split: if_splits)
    from Cons.IH [OF m'(1)] m'(2) show ?thesis by simp
  qed
qed

lemma endsAtBoundary_Nil [simp]: "\<not> endsAtBoundary T [] p"
  by (simp add: endsAtBoundary_def)

lemma endsAtBoundary_Cons:
  "endsAtBoundary T (c # cs) p \<longleftrightarrow>
     (p = [c] \<and> T c \<and> cs \<noteq> [] \<and> isWhiteSpace (hd cs)) \<or>
     (\<exists>p'. p = c # p' \<and> endsAtBoundary T cs p')"
proof (cases p)
  case Nil
  then show ?thesis by (simp add: endsAtBoundary_def)
next
  case (Cons a p')
  show ?thesis
  proof (cases "p' = []")
    case True
    with Cons show ?thesis
      by (cases cs) (auto simp: endsAtBoundary_def)
  next
    case False
    with Cons show ?thesis
      by (auto simp: endsAtBoundary_def)
  qed
qed

lemma isShortestBoundary_Nil [simp]: "\<not> isShortestBoundary T [] p"
  by (simp add: isShortestBoundary_def)

lemma shortest_alt:
  "isShortestBoundary T buf p \<longleftrightarrow>
     endsAtBoundary T buf p \<and> (\<forall>n < length p. \<not> endsAtBoundary T buf (take n buf))"
  by (auto simp: isShortestBoundary_def list_all_iff)

lemma isShortestBoundary_Cons:
  "isShortestBoundary T (c # cs) p \<longleftrightarrow>
     (if T c \<and> cs \<noteq> [] \<and> isWhiteSpace (hd cs) then p = [c]
      else \<exists>p'. p = c # p' \<and> isShortestBoundary T cs p')"
proof (cases "T c \<and> cs \<noteq> [] \<and> isWhiteSpace (hd cs)")
  case True
  have "isShortestBoundary T (c # cs) [c]"
    using True by (cases cs) (simp_all add: shortest_alt endsAtBoundary_def)
  moreover have "p = [c]" if "isShortestBoundary T (c # cs) p"
  proof (rule ccontr)
    assume ne: "p \<noteq> [c]"
    from that have e: "endsAtBoundary T (c # cs) p"
      and s: "\<forall>n < length p. \<not> endsAtBoundary T (c # cs) (take n (c # cs))"
      by (simp_all add: shortest_alt)
    from e ne obtain p' where "p = c # p'" "endsAtBoundary T cs p'"
      by (auto simp: endsAtBoundary_Cons)
    then have "1 < length p" by (cases p') (auto simp: endsAtBoundary_def)
    with s have "\<not> endsAtBoundary T (c # cs) (take 1 (c # cs))" by blast
    with True show False by (simp add: endsAtBoundary_Cons)
  qed
  ultimately show ?thesis using True by auto
next
  case False
  have "isShortestBoundary T (c # cs) p \<longleftrightarrow> (\<exists>p'. p = c # p' \<and> isShortestBoundary T cs p')"
  proof
    assume a: "isShortestBoundary T (c # cs) p"
    then obtain p' where p': "p = c # p'" "endsAtBoundary T cs p'"
      using False by (auto simp: shortest_alt endsAtBoundary_Cons)
    have "\<not> endsAtBoundary T cs (take n cs)" if "n < length p'" for n
    proof -
      from that p' have "Suc n < length p" by simp
      with a have "\<not> endsAtBoundary T (c # cs) (take (Suc n) (c # cs))"
        unfolding shortest_alt by blast
      then show ?thesis by (simp add: endsAtBoundary_Cons)
    qed
    with p' show "\<exists>p'. p = c # p' \<and> isShortestBoundary T cs p'"
      by (auto simp: shortest_alt)
  next
    assume "\<exists>p'. p = c # p' \<and> isShortestBoundary T cs p'"
    then obtain p' where p': "p = c # p'" "endsAtBoundary T cs p'"
      "\<forall>n < length p'. \<not> endsAtBoundary T cs (take n cs)"
      by (auto simp: shortest_alt)
    have "\<not> endsAtBoundary T (c # cs) (take n (c # cs))" if "n < length p" for n
    proof (cases n)
      case 0
      then show ?thesis by (simp add: endsAtBoundary_def)
    next
      case (Suc k)
      with that p' have "k < length p'" by simp
      with p'(3) have "\<not> endsAtBoundary T cs (take k cs)" by blast
      with Suc False show ?thesis by (auto simp: endsAtBoundary_Cons)
    qed
    with p' show "isShortestBoundary T (c # cs) p"
      by (auto simp: shortest_alt endsAtBoundary_Cons)
  qed
  with False show ?thesis by auto
qed

lemma lazyMatch_iff:
  "lazyMatch T d buf = Some m \<longleftrightarrow>
     (\<exists>p. isShortestBoundary T buf p \<and> (d \<or> \<not> list_ex isLineTerminator (butlast p)) \<and>
          m = withTrailingSpace buf p)"
proof (induction buf arbitrary: m)
  case Nil
  then show ?case by simp
next
  case (Cons c cs)
  show ?case
  proof (cases "T c \<and> cs \<noteq> [] \<and> isWhiteSpace (hd cs)")
    case True
    then show ?thesis
      by (auto simp: isShortestBoundary_Cons withTrailingSpace_def)
  next
    case False
    note nb = this
    show ?thesis
    proof (cases "\<not> d \<and> isLineTerminator c")
      case True
      have "p' \<noteq> []" if "isShortestBoundary T cs p'" for p'
        using that by (auto simp: shortest_alt endsAtBoundary_def)
      then show ?thesis using nb True
        by (auto simp: isShortestBoundary_Cons)
    next
      case False
      have ne: "p' \<noteq> []" if "isShortestBoundary T cs p'" for p'
        using that by (auto simp: shortest_alt endsAtBoundary_def)
      have "lazyMatch T d (c # cs) = Some m \<longleftrightarrow> (\<exists>m'. lazyMatch T d cs = Some m' \<and> m = c # m')"
        using nb False by auto
      also have "\<dots> \<longleftrightarrow> (\<exists>p'. isShortestBoundary T cs p' \<and>
            (d \<or> \<not> list_ex isLineTerminator (butlast p')) \<and> m = c # withTrailingSpace cs p')"
        by (auto simp: Cons.IH)
      also have "\<dots> \<longleftrightarrow> (\<exists>p. isShortestBoundary T (c # cs) p \<and>
            (d \<or> \<not> list_ex isLineTerminator (butlast p)) \<and> m = withTrailingSpace (c # cs) p)"
        using nb False ne by (auto simp: isShortestBoundary_Cons withTrailingSpace_def)
      finally show ?thesis .
    qed
  qed
qed

section \<open>The text chunkers: proofs\<close>

lemma lazyMatch_has_T: "lazyMatch T d xs = Some m \<Longrightarrow> \<exists>x \<in> set m. T x"
proof (induction xs arbitrary: m)
  case Nil
  then show ?case by simp
next
  case (Cons c cs)
  then show ?case by (fastforce split: if_splits)
qed

lemma sentenceEnd_not_ws: "isSentenceEnd x \<Longrightarrow> \<not> isWhiteSpace x"
  by (auto simp: isSentenceEnd_def isWhiteSpace_def isLineTerminator_def)

lemma clauseEnd_not_ws: "isClauseEnd x \<Longrightarrow> \<not> isWhiteSpace x"
  by (auto simp: isClauseEnd_def isWhiteSpace_def isLineTerminator_def)

lemma boundaryMatch_cases:
  assumes "boundaryMatch d minC buf = Some m"
  shows "lazyMatch isSentenceEnd d buf = Some m \<or> lazyMatch isClauseEnd d buf = Some m"
  using assms by (auto simp: boundaryMatch_def Let_def split: if_splits)

lemma boundaryMatch_prefix: "boundaryMatch d minC buf = Some m \<Longrightarrow> buf = m @ drop (length m) buf"
  using boundaryMatch_cases lazyMatch_prefix by blast

lemma boundaryMatch_trim_ne: "boundaryMatch d minC buf = Some m \<Longrightarrow> trim m \<noteq> []"
proof -
  assume "boundaryMatch d minC buf = Some m"
  then have "\<exists>x \<in> set m. \<not> isWhiteSpace x"
    using boundaryMatch_cases [of d minC buf m] lazyMatch_has_T sentenceEnd_not_ws clauseEnd_not_ws
    by blast
  then show ?thesis by (simp add: trim_eq_Nil_iff)
qed

lemma boundaryMatch_sentence:
  assumes "boundaryHit isSentenceEnd d minC buf p"
  shows "boundaryMatch d minC buf = Some (withTrailingSpace buf p)"
proof -
  from assms have "lazyMatch isSentenceEnd d buf = Some (withTrailingSpace buf p)"
    unfolding boundaryHit_def lazyMatch_iff by blast
  moreover from assms have "minC \<le> length (withTrailingSpace buf p)"
    by (simp add: boundaryHit_def)
  ultimately show ?thesis by (simp add: boundaryMatch_def)
qed

lemma trim_withTrailingSpace [simp]: "trim (withTrailingSpace buf p) = trim p"
  unfolding withTrailingSpace_def by (rule trim_append_ws) (auto dest: set_takeWhileD)

lemma withTrailingSpace_prefix:
  "length p \<le> length buf \<Longrightarrow> take (length p) buf = p \<Longrightarrow>
   withTrailingSpace buf p @ drop (length (withTrailingSpace buf p)) buf = buf"
proof -
  assume a: "length p \<le> length buf" "take (length p) buf = p"
  define r where "r = drop (length p) buf"
  define w where "w = takeWhile isWhiteSpace r"
  have 1: "buf = p @ r" using a unfolding r_def by (metis append_take_drop_id)
  have 2: "r = w @ drop (length w) r"
    unfolding w_def by (metis dropWhile_eq_drop takeWhile_dropWhile_id)
  have 3: "withTrailingSpace buf p = p @ w"
    by (simp add: withTrailingSpace_def w_def r_def)
  have "drop (length (p @ w)) buf = drop (length w) r"
    unfolding r_def by (simp add: add.commute)
  with 1 2 3 show ?thesis by simp
qed

lemma length_trim_le: "length (trim s) \<le> length s"
proof -
  have "length (trim s) \<le> length (dropWhile isWhiteSpace s)"
    unfolding trim_def by (metis length_dropWhile_le length_rev)
  also have "\<dots> \<le> length s" by (rule length_dropWhile_le)
  finally show ?thesis .
qed

lemma trimmed_threshold_hit:
  assumes "isShortestBoundary T buf p" and "d \<or> \<not> list_ex isLineTerminator (butlast p)"
    and "minC \<le> length (trim p)"
  shows "boundaryHit T d minC buf p"
proof -
  have "length (trim p) \<le> length (withTrailingSpace buf p)"
    using length_trim_le [of p] by (simp add: withTrailingSpace_def)
  with assms show ?thesis by (simp add: boundaryHit_def)
qed

lemma no_hit_lazyMatch:
  assumes "\<forall>q. \<not> boundaryHit T d minC buf q"
  shows "\<not> (lazyMatch T d buf \<noteq> None \<and> minC \<le> length (the (lazyMatch T d buf)))"
proof
  assume a: "lazyMatch T d buf \<noteq> None \<and> minC \<le> length (the (lazyMatch T d buf))"
  then obtain m where m: "lazyMatch T d buf = Some m" "minC \<le> length m" by auto
  then obtain p where "isShortestBoundary T buf p"
    "d \<or> \<not> list_ex isLineTerminator (butlast p)" "m = withTrailingSpace buf p"
    unfolding lazyMatch_iff by blast
  with m(2) have "boundaryHit T d minC buf p" by (simp add: boundaryHit_def)
  with assms show False by blast
qed

lemma hit_lazyMatch:
  assumes "boundaryHit T d minC buf p"
  shows "lazyMatch T d buf = Some (withTrailingSpace buf p)"
    and "minC \<le> length (withTrailingSpace buf p)"
proof -
  from assms show "lazyMatch T d buf = Some (withTrailingSpace buf p)"
    unfolding boundaryHit_def lazyMatch_iff by blast
  from assms show "minC \<le> length (withTrailingSpace buf p)"
    by (simp add: boundaryHit_def)
qed

lemma boundaryMatch_clause:
  assumes "\<forall>q. \<not> boundaryHit isSentenceEnd d minC buf q" and "50 < length buf"
    and "boundaryHit isClauseEnd d minC buf p"
  shows "boundaryMatch d minC buf = Some (withTrailingSpace buf p)"
  using no_hit_lazyMatch [OF assms(1)] assms(2) hit_lazyMatch [OF assms(3)]
  by (auto simp: boundaryMatch_def Let_def)

lemma boundaryMatch_nothing:
  assumes "\<forall>q. \<not> boundaryHit isSentenceEnd d minC buf q"
    and "length buf \<le> 50 \<or> (\<forall>q. \<not> boundaryHit isClauseEnd d minC buf q)"
  shows "boundaryMatch d minC buf = None"
proof (cases "length buf \<le> 50")
  case True
  with no_hit_lazyMatch [OF assms(1)] show ?thesis by (auto simp: boundaryMatch_def Let_def)
next
  case False
  with assms(2) have "\<forall>q. \<not> boundaryHit isClauseEnd d minC buf q" by blast
  from no_hit_lazyMatch [OF assms(1)] no_hit_lazyMatch [OF this] show ?thesis
    by (auto simp: boundaryMatch_def Let_def)
qed

lemma add_emits:
  "boundaryMatch True (minChars c) (buffer c @ text) = Some (withTrailingSpace (buffer c @ text) p) \<Longrightarrow>
   TextChunker_add c text = (Some (trim p), consume c (buffer c @ text) p)"
  by (simp add: TextChunker_add_def Let_def consume_def)

lemma addToken_emits:
  "boundaryMatch False (minChars c) (buffer c @ text) = Some (withTrailingSpace (buffer c @ text) p) \<Longrightarrow>
   LLMTextChunker_addToken c text = ([trim p], consume c (buffer c @ text) p)"
  by (simp add: LLMTextChunker_addToken_def Let_def consume_def emitChunk_def)

lemma add_keeps:
  "boundaryMatch True (minChars c) (buffer c @ text) = None \<Longrightarrow>
   TextChunker_add c text = (None, c\<lparr>buffer := buffer c @ text\<rparr>)"
  by (simp add: TextChunker_add_def Let_def)

lemma addToken_keeps:
  "boundaryMatch False (minChars c) (buffer c @ text) = None \<Longrightarrow>
   LLMTextChunker_addToken c text = ([], c\<lparr>buffer := buffer c @ text\<rparr>)"
  by (simp add: LLMTextChunker_addToken_def Let_def)

lemma boundaryMatch_is_shortest:
  assumes "boundaryMatch d minC buf = Some m"
  shows "\<exists>p. (isShortestBoundary isSentenceEnd buf p \<or> isShortestBoundary isClauseEnd buf p) \<and>
             m = withTrailingSpace buf p"
  using boundaryMatch_cases [OF assms] unfolding lazyMatch_iff by blast

lemma emitted_chunk_origin:
  "(fst (TextChunker_add c text) = Some chunk \<longrightarrow>
      (\<exists>p. (isShortestBoundary isSentenceEnd (buffer c @ text) p \<or>
            isShortestBoundary isClauseEnd (buffer c @ text) p) \<and> chunk = trim p)) \<and>
   (chunk \<in> set (fst (LLMTextChunker_addToken c text)) \<longrightarrow>
      (\<exists>p. (isShortestBoundary isSentenceEnd (buffer c @ text) p \<or>
            isShortestBoundary isClauseEnd (buffer c @ text) p) \<and> chunk = trim p))"
proof (intro conjI impI)
  assume a: "fst (TextChunker_add c text) = Some chunk"
  then obtain m where m: "boundaryMatch True (minChars c) (buffer c @ text) = Some m" "chunk = trim m"
    by (auto simp: TextChunker_add_def Let_def split: option.splits)
  from boundaryMatch_is_shortest [OF m(1)] m(2)
  show "\<exists>p. (isShortestBoundary isSentenceEnd (buffer c @ text) p \<or>
            isShortestBoundary isClauseEnd (buffer c @ text) p) \<and> chunk = trim p"
    by auto
next
  assume a: "chunk \<in> set (fst (LLMTextChunker_addToken c text))"
  then obtain m where m: "boundaryMatch False (minChars c) (buffer c @ text) = Some m" "chunk = trim m"
    by (auto simp: LLMTextChunker_addToken_def Let_def emitChunk_def split: option.splits)
  from boundaryMatch_is_shortest [OF m(1)] m(2)
  show "\<exists>p. (isShortestBoundary isSentenceEnd (buffer c @ text) p \<or>
            isShortestBoundary isClauseEnd (buffer c @ text) p) \<and> chunk = trim p"
    by auto
qed

subsection \<open>Claim C1: what a boundary makes the chunkers emit\<close>

text \<open>
  Claim C1, as amended. After the fragment is appended, if the shortest prefix of the buffer
  that ends in a sentence terminator immediately followed by whitespace has trimmed length
  of at least \<open>minChars\<close> (and, for \<open>addToken\<close>, no line terminator stands before its
  terminator), then \<open>add\<close> and \<open>addToken\<close> emit that prefix, trimmed, as the chunk and remove
  exactly the consumed prefix, which is the prefix with the run of whitespace after it, from
  the buffer. The clause fallback (terminators \<open>,\<close> \<open>;\<close> \<open>:\<close> followed by whitespace, the same
  threshold) is evaluated only when the buffer is longer than 50 code units and the
  sentence test emitted nothing.

  The theorem states this and fixes the two methods in every case. The threshold the code
  tests is the length of the prefix with its trailing whitespace (\<open>boundaryHit\<close>), which the
  trimmed length never exceeds. With a sentence hit the sentence prefix is emitted; with
  none, more than 50 code units and a clause hit, the clause prefix is emitted; with none
  and at most 50 code units or no clause hit, nothing is emitted and the buffer keeps
  everything. Whatever is emitted is the trimmed shortest sentence or clause prefix: no
  longer prefix is ever tried.
\<close>

theorem boundary_emission_is_shortest_prefix:
  "buf = buffer c @ fragment \<Longrightarrow>
   (isShortestBoundary isSentenceEnd buf p \<and> minChars c \<le> length (trim p) \<longrightarrow>
      TextChunker_add c fragment = (Some (trim p), consume c buf p)) \<and>
   (isShortestBoundary isSentenceEnd buf p \<and> \<not> list_ex isLineTerminator (butlast p) \<and>
    minChars c \<le> length (trim p) \<longrightarrow>
      LLMTextChunker_addToken c fragment = ([trim p], consume c buf p)) \<and>
   (isShortestBoundary T buf p \<longrightarrow> withTrailingSpace buf p @ buffer (consume c buf p) = buf) \<and>
   (boundaryHit isSentenceEnd True (minChars c) buf p \<longrightarrow>
      TextChunker_add c fragment = (Some (trim p), consume c buf p)) \<and>
   (boundaryHit isSentenceEnd False (minChars c) buf p \<longrightarrow>
      LLMTextChunker_addToken c fragment = ([trim p], consume c buf p)) \<and>
   ((\<forall>q. \<not> boundaryHit isSentenceEnd True (minChars c) buf q) \<and> 50 < length buf \<and>
    boundaryHit isClauseEnd True (minChars c) buf p \<longrightarrow>
      TextChunker_add c fragment = (Some (trim p), consume c buf p)) \<and>
   ((\<forall>q. \<not> boundaryHit isSentenceEnd False (minChars c) buf q) \<and> 50 < length buf \<and>
    boundaryHit isClauseEnd False (minChars c) buf p \<longrightarrow>
      LLMTextChunker_addToken c fragment = ([trim p], consume c buf p)) \<and>
   ((\<forall>q. \<not> boundaryHit isSentenceEnd True (minChars c) buf q) \<and>
    (length buf \<le> 50 \<or> (\<forall>q. \<not> boundaryHit isClauseEnd True (minChars c) buf q)) \<longrightarrow>
      TextChunker_add c fragment = (None, c\<lparr>buffer := buf\<rparr>)) \<and>
   ((\<forall>q. \<not> boundaryHit isSentenceEnd False (minChars c) buf q) \<and>
    (length buf \<le> 50 \<or> (\<forall>q. \<not> boundaryHit isClauseEnd False (minChars c) buf q)) \<longrightarrow>
      LLMTextChunker_addToken c fragment = ([], c\<lparr>buffer := buf\<rparr>)) \<and>
   (fst (TextChunker_add c fragment) = Some chunk \<longrightarrow>
      (\<exists>q. (isShortestBoundary isSentenceEnd buf q \<or> isShortestBoundary isClauseEnd buf q) \<and>
           chunk = trim q)) \<and>
   (chunk \<in> set (fst (LLMTextChunker_addToken c fragment)) \<longrightarrow>
      (\<exists>q. (isShortestBoundary isSentenceEnd buf q \<or> isShortestBoundary isClauseEnd buf q) \<and>
           chunk = trim q))"
proof -
  assume buf: "buf = buffer c @ fragment"
  have 1: "TextChunker_add c fragment = (Some (trim p), consume c buf p)"
    if "boundaryHit isSentenceEnd True (minChars c) buf p"
    using that unfolding buf by (intro add_emits boundaryMatch_sentence)
  have 2: "LLMTextChunker_addToken c fragment = ([trim p], consume c buf p)"
    if "boundaryHit isSentenceEnd False (minChars c) buf p"
    using that unfolding buf by (intro addToken_emits boundaryMatch_sentence)
  have 3: "withTrailingSpace buf p @ buffer (consume c buf p) = buf"
    if "isShortestBoundary T buf p"
  proof -
    from that have "length p \<le> length buf" "take (length p) buf = p"
      by (simp_all add: shortest_alt endsAtBoundary_def)
    then show ?thesis using withTrailingSpace_prefix by (simp add: consume_def)
  qed
  have 4: "TextChunker_add c fragment = (Some (trim p), consume c buf p)"
    if "\<forall>q. \<not> boundaryHit isSentenceEnd True (minChars c) buf q" "50 < length buf"
      "boundaryHit isClauseEnd True (minChars c) buf p"
    using that unfolding buf by (intro add_emits boundaryMatch_clause)
  have 5: "LLMTextChunker_addToken c fragment = ([trim p], consume c buf p)"
    if "\<forall>q. \<not> boundaryHit isSentenceEnd False (minChars c) buf q" "50 < length buf"
      "boundaryHit isClauseEnd False (minChars c) buf p"
    using that unfolding buf by (intro addToken_emits boundaryMatch_clause)
  have 6: "TextChunker_add c fragment = (None, c\<lparr>buffer := buf\<rparr>)"
    if "\<forall>q. \<not> boundaryHit isSentenceEnd True (minChars c) buf q"
      "length buf \<le> 50 \<or> (\<forall>q. \<not> boundaryHit isClauseEnd True (minChars c) buf q)"
    using that unfolding buf by (intro add_keeps boundaryMatch_nothing)
  have 7: "LLMTextChunker_addToken c fragment = ([], c\<lparr>buffer := buf\<rparr>)"
    if "\<forall>q. \<not> boundaryHit isSentenceEnd False (minChars c) buf q"
      "length buf \<le> 50 \<or> (\<forall>q. \<not> boundaryHit isClauseEnd False (minChars c) buf q)"
    using that unfolding buf by (intro addToken_keeps boundaryMatch_nothing)
  have 8: "TextChunker_add c fragment = (Some (trim p), consume c buf p)"
    if "isShortestBoundary isSentenceEnd buf p" "minChars c \<le> length (trim p)"
    using that by (intro 1 trimmed_threshold_hit) simp_all
  have 9: "LLMTextChunker_addToken c fragment = ([trim p], consume c buf p)"
    if "isShortestBoundary isSentenceEnd buf p" "\<not> list_ex isLineTerminator (butlast p)"
      "minChars c \<le> length (trim p)"
    using that by (intro 2 trimmed_threshold_hit) simp_all
  have 10: "(fst (TextChunker_add c fragment) = Some chunk \<longrightarrow>
      (\<exists>q. (isShortestBoundary isSentenceEnd buf q \<or> isShortestBoundary isClauseEnd buf q) \<and>
           chunk = trim q)) \<and>
   (chunk \<in> set (fst (LLMTextChunker_addToken c fragment)) \<longrightarrow>
      (\<exists>q. (isShortestBoundary isSentenceEnd buf q \<or> isShortestBoundary isClauseEnd buf q) \<and>
           chunk = trim q))"
    unfolding buf by (rule emitted_chunk_origin)
  show ?thesis using 1 2 3 4 5 6 7 8 9 10 by blast
qed

theorem boundary_emission_is_shortest_prefix_witness:
  "isShortestBoundary isSentenceEnd (js ''This is sentence one. This is sentence two. '')
     (js ''This is sentence one.'') \<and>
   \<not> list_ex isLineTerminator (butlast (js ''This is sentence one.'')) \<and>
   20 \<le> length (trim (js ''This is sentence one.'')) \<and>
   TextChunker_add TextChunker_new (js ''This is sentence one. This is sentence two. '') =
     (Some (js ''This is sentence one.''), TextChunker_new\<lparr>buffer := js ''This is sentence two. ''\<rparr>) \<and>
   LLMTextChunker_addToken (LLMTextChunker_new 20) (js ''This is sentence one. This is sentence two. '') =
     ([js ''This is sentence one.''], LLMTextChunker_new 20\<lparr>buffer := js ''This is sentence two. ''\<rparr>) \<and>
   (\<forall>q. \<not> boundaryHit isSentenceEnd True 20
          (js ''This is the first clause, and then the text just keeps going on'') q) \<and>
   50 < length (js ''This is the first clause, and then the text just keeps going on'') \<and>
   boundaryHit isClauseEnd True 20
     (js ''This is the first clause, and then the text just keeps going on'')
     (js ''This is the first clause,'') \<and>
   TextChunker_add TextChunker_new
     (js ''This is the first clause, and then the text just keeps going on'') =
     (Some (js ''This is the first clause,''),
      TextChunker_new\<lparr>buffer := js ''and then the text just keeps going on''\<rparr>) \<and>
   LLMTextChunker_addToken (LLMTextChunker_new 20)
     (js ''This is the first clause, and then the text just keeps going on'') =
     ([js ''This is the first clause,''],
      LLMTextChunker_new 20\<lparr>buffer := js ''and then the text just keeps going on''\<rparr>) \<and>
   (\<forall>q. \<not> boundaryHit isSentenceEnd True 20 (js ''Ok, fine: go. On'') q) \<and>
   length (js ''Ok, fine: go. On'') \<le> 50 \<and>
   TextChunker_add TextChunker_new (js ''Ok, fine: go. On'') =
     (None, TextChunker_new\<lparr>buffer := js ''Ok, fine: go. On''\<rparr>) \<and>
   LLMTextChunker_addToken (LLMTextChunker_new 20) (js ''Ok, fine: go. On'') =
     ([], LLMTextChunker_new 20\<lparr>buffer := js ''Ok, fine: go. On''\<rparr>)"
proof -
  let ?two = "js ''This is sentence one. This is sentence two. ''"
  let ?one = "js ''This is sentence one.''"
  let ?long = "js ''This is the first clause, and then the text just keeps going on''"
  let ?cl = "js ''This is the first clause,''"
  let ?ok = "js ''Ok, fine: go. On''"
  let ?T = "TextChunker_new"
  let ?L = "LLMTextChunker_new 20"
  have bT: "buffer ?T = []" "minChars ?T = 20" by (simp_all add: TextChunker_new_def)
  have bL: "buffer ?L = []" "minChars ?L = 20" by (simp_all add: LLMTextChunker_new_def)
  have sh: "isShortestBoundary isSentenceEnd ?two ?one"
    by (simp add: isShortestBoundary_def endsAtBoundary_def js_eval upt_rec)
  have lt: "\<not> list_ex isLineTerminator (butlast ?one)" by (simp add: js_eval)
  have tr: "trim ?one = ?one" "trim ?cl = ?cl" by (simp_all add: trim_def js_eval)
  have len: "20 \<le> length (trim ?one)" unfolding tr by (simp add: js_def)
  have r1: "consume c ?two ?one = c\<lparr>buffer := js ''This is sentence two. ''\<rparr>" for c
    by (simp add: consume_def withTrailingSpace_def js_eval)
  have r2: "consume c ?long ?cl = c\<lparr>buffer := js ''and then the text just keeps going on''\<rparr>" for c
    by (simp add: consume_def withTrailingSpace_def js_eval)
  have nosent: "lazyMatch isSentenceEnd d ?long = None" for d by (simp add: js_eval)
  have nohit: "\<not> boundaryHit isSentenceEnd d 20 ?long q" for d q
    using hit_lazyMatch(1) [of isSentenceEnd d 20 ?long q] nosent [of d] by auto
  have l50: "50 < length ?long" by (simp add: js_def)
  have chit: "boundaryHit isClauseEnd d 20 ?long ?cl" for d
    by (simp add: boundaryHit_def isShortestBoundary_def endsAtBoundary_def
        withTrailingSpace_def js_eval upt_rec)
  have m: "lazyMatch isSentenceEnd d ?ok = Some (js ''Ok, fine: go. '')" for d
    by (simp add: js_eval)
  have none: "\<not> boundaryHit isSentenceEnd d 20 ?ok q" for d q
  proof
    assume "boundaryHit isSentenceEnd d 20 ?ok q"
    from hit_lazyMatch [OF this] m [of d]
    have "20 \<le> length (js ''Ok, fine: go. '')" by (metis option.inject)
    then show False by (simp add: js_def)
  qed
  have l16: "length ?ok \<le> 50" by (simp add: js_def)
  note t1 = boundary_emission_is_shortest_prefix [of ?two ?T ?two ?one isSentenceEnd]
  note t2 = boundary_emission_is_shortest_prefix [of ?two ?L ?two ?one isSentenceEnd]
  note t3 = boundary_emission_is_shortest_prefix [of ?long ?T ?long ?cl isSentenceEnd]
  note t4 = boundary_emission_is_shortest_prefix [of ?long ?L ?long ?cl isSentenceEnd]
  note t5 = boundary_emission_is_shortest_prefix [of ?ok ?T ?ok "[]" isSentenceEnd]
  note t6 = boundary_emission_is_shortest_prefix [of ?ok ?L ?ok "[]" isSentenceEnd]
  have a1: "TextChunker_add ?T ?two = (Some ?one, ?T\<lparr>buffer := js ''This is sentence two. ''\<rparr>)"
    using t1 sh len bT tr r1 by simp
  have a2: "LLMTextChunker_addToken ?L ?two = ([?one], ?L\<lparr>buffer := js ''This is sentence two. ''\<rparr>)"
    using t2 sh lt len bL tr r1 by simp
  have a3: "TextChunker_add ?T ?long =
      (Some ?cl, ?T\<lparr>buffer := js ''and then the text just keeps going on''\<rparr>)"
    using t3 nohit l50 chit bT tr r2 by simp
  have a4: "LLMTextChunker_addToken ?L ?long =
      ([?cl], ?L\<lparr>buffer := js ''and then the text just keeps going on''\<rparr>)"
    using t4 nohit l50 chit bL tr r2 by simp
  have a5: "TextChunker_add ?T ?ok = (None, ?T\<lparr>buffer := ?ok\<rparr>)"
    using t5 none l16 bT by simp
  have a6: "LLMTextChunker_addToken ?L ?ok = ([], ?L\<lparr>buffer := ?ok\<rparr>)"
    using t6 none l16 bL by simp
  show ?thesis
    using sh lt len a1 a2 nohit l50 chit a3 a4 none l16 a5 a6 by simp
qed

text \<open>
  The claim as the specification words it fails. With two sentences in the buffer, the
  longest prefix that ends at a sentence boundary and is 20 or more code units long after
  trimming is both sentences, and the chunkers emit the first sentence only, removing it
  and the blank after it. With a short
  first sentence, a later boundary that passes the threshold is never reached. With a line
  feed before the first full stop, the shortest such prefix passes the threshold, \<open>add\<close>
  emits it and \<open>addToken\<close>, whose \<open>.\<close> does not match the line feed, emits nothing.
\<close>

theorem longest_sentence_prefix_counterexample:
  "endsAtBoundary isSentenceEnd (js ''This is sentence one. This is sentence two. '')
     (js ''This is sentence one. This is sentence two.'') \<and>
   20 \<le> length (trim (js ''This is sentence one. This is sentence two.'')) \<and>
   fst (TextChunker_add TextChunker_new (js ''This is sentence one. This is sentence two. '')) =
     Some (js ''This is sentence one.'') \<and>
   fst (LLMTextChunker_addToken (LLMTextChunker_new 20)
          (js ''This is sentence one. This is sentence two. '')) =
     [js ''This is sentence one.''] \<and>
   js ''This is sentence one.'' \<noteq> js ''This is sentence one. This is sentence two.'' \<and>
   buffer (snd (TextChunker_add TextChunker_new
      (js ''This is sentence one. This is sentence two. ''))) = js ''This is sentence two. '' \<and>
   endsAtBoundary isSentenceEnd (js ''Ok. This is a longer sentence. '')
     (js ''Ok. This is a longer sentence.'') \<and>
   20 \<le> length (trim (js ''Ok. This is a longer sentence.'')) \<and>
   fst (TextChunker_add TextChunker_new (js ''Ok. This is a longer sentence. '')) = None \<and>
   fst (LLMTextChunker_addToken (LLMTextChunker_new 20) (js ''Ok. This is a longer sentence. '')) = [] \<and>
   isShortestBoundary isSentenceEnd (js ''Line one'' @ 0x0A # js ''This is a sentence. More'')
     (js ''Line one'' @ 0x0A # js ''This is a sentence.'') \<and>
   20 \<le> length (trim (js ''Line one'' @ 0x0A # js ''This is a sentence.'')) \<and>
   fst (LLMTextChunker_addToken (LLMTextChunker_new 20)
          (js ''Line one'' @ 0x0A # js ''This is a sentence. More'')) = [] \<and>
   fst (TextChunker_add TextChunker_new (js ''Line one'' @ 0x0A # js ''This is a sentence. More'')) =
     Some (js ''Line one'' @ 0x0A # js ''This is a sentence.'')"
  by (simp add: endsAtBoundary_def isShortestBoundary_def TextChunker_add_def
      LLMTextChunker_addToken_def TextChunker_new_def LLMTextChunker_new_def boundaryMatch_def
      emitChunk_def trim_def js_eval upt_rec)

subsection \<open>Claim C9: flush\<close>

text \<open>
  Claim C9, as amended. When the buffer holds anything but whitespace, \<open>flush\<close> emits exactly
  one chunk, the trimmed buffer, and leaves the buffer empty. When the buffer trims to the
  empty string, \<open>flush\<close> emits nothing and leaves the chunker as it was: the buffer keeps
  its whitespace, and holds nothing else.
\<close>

theorem flush_clears_only_when_it_emits:
  "(trim (buffer c) \<noteq> [] \<longrightarrow>
      TextChunker_flush c = (Some (trim (buffer c)), c\<lparr>buffer := []\<rparr>) \<and>
      LLMTextChunker_flush c = ([trim (buffer c)], c\<lparr>buffer := []\<rparr>)) \<and>
   (trim (buffer c) = [] \<longrightarrow>
      TextChunker_flush c = (None, c) \<and> LLMTextChunker_flush c = ([], c) \<and>
      list_all isWhiteSpace (buffer c))"
  by (simp add: TextChunker_flush_def LLMTextChunker_flush_def emitChunk_def trim_eq_Nil_iff list_all_iff)

theorem flush_clears_only_when_it_emits_witness:
  "trim (buffer \<lparr>buffer = js '' Ok. '', minChars = 20\<rparr>) \<noteq> [] \<and>
   TextChunker_flush \<lparr>buffer = js '' Ok. '', minChars = 20\<rparr> =
     (Some (js ''Ok.''), \<lparr>buffer = [], minChars = 20\<rparr>) \<and>
   LLMTextChunker_flush \<lparr>buffer = js '' Ok. '', minChars = 20\<rparr> =
     ([js ''Ok.''], \<lparr>buffer = [], minChars = 20\<rparr>) \<and>
   trim (buffer \<lparr>buffer = js ''  '', minChars = 20\<rparr>) = [] \<and>
   TextChunker_flush \<lparr>buffer = js ''  '', minChars = 20\<rparr> =
     (None, \<lparr>buffer = js ''  '', minChars = 20\<rparr>) \<and>
   LLMTextChunker_flush \<lparr>buffer = js ''  '', minChars = 20\<rparr> =
     ([], \<lparr>buffer = js ''  '', minChars = 20\<rparr>)"
proof -
  have 1: "trim (js '' Ok. '') = js ''Ok.''" and 2: "trim (js ''  '') = []"
    by (simp_all add: trim_def js_eval)
  have 3: "js ''Ok.'' \<noteq> []" by (simp add: js_def)
  show ?thesis
    using flush_clears_only_when_it_emits [of "\<lparr>buffer = js '' Ok. '', minChars = 20\<rparr>"]
      flush_clears_only_when_it_emits [of "\<lparr>buffer = js ''  '', minChars = 20\<rparr>"] 1 2 3
    by simp
qed

text \<open>
  The claim as the specification words it fails on a buffer of whitespace: it is not empty
  after \<open>flush\<close>.
\<close>

theorem flush_keeps_whitespace_counterexample:
  "buffer (snd (TextChunker_flush \<lparr>buffer = js '' '', minChars = 20\<rparr>)) = js '' '' \<and>
   buffer (snd (LLMTextChunker_flush \<lparr>buffer = js '' '', minChars = 20\<rparr>)) = js '' '' \<and>
   js '' '' \<noteq> []"
  by (simp add: TextChunker_flush_def LLMTextChunker_flush_def trim_def js_eval)

subsection \<open>Claim C7: the chunks reproduce the input\<close>

lemma TextChunker_add_piece:
  assumes "TextChunker_add c t = (r, c')"
  shows "\<exists>m. buffer c @ t = m @ buffer c' \<and> truthy r = nonEmpty [trim m]"
proof (cases "boundaryMatch True (minChars c) (buffer c @ t)")
  case None
  with assms have "r = None" "buffer c' = buffer c @ t"
    by (auto simp: TextChunker_add_def Let_def)
  then have "buffer c @ t = [] @ buffer c' \<and> truthy r = nonEmpty [trim []]"
    by (simp add: truthy_def nonEmpty_def)
  then show ?thesis by blast
next
  case (Some m)
  with assms have r: "r = Some (trim m)" "buffer c' = drop (length m) (buffer c @ t)"
    by (auto simp: TextChunker_add_def Let_def)
  from Some have "buffer c @ t = m @ drop (length m) (buffer c @ t)"
    by (rule boundaryMatch_prefix)
  with r have "buffer c @ t = m @ buffer c'" by simp
  moreover have "truthy r = nonEmpty [trim m]"
    using r by (simp add: truthy_def nonEmpty_def)
  ultimately show ?thesis by blast
qed

lemma LLMTextChunker_addToken_piece:
  assumes "LLMTextChunker_addToken c t = (out, c')"
  shows "\<exists>m. buffer c @ t = m @ buffer c' \<and> out = nonEmpty [trim m]"
proof (cases "boundaryMatch False (minChars c) (buffer c @ t)")
  case None
  with assms have "out = []" "buffer c' = buffer c @ t"
    by (auto simp: LLMTextChunker_addToken_def Let_def)
  then have "buffer c @ t = [] @ buffer c' \<and> out = nonEmpty [trim []]"
    by (simp add: nonEmpty_def)
  then show ?thesis by blast
next
  case (Some m)
  with assms have r: "out = [trim m]" "buffer c' = drop (length m) (buffer c @ t)"
    by (auto simp: LLMTextChunker_addToken_def Let_def emitChunk_def)
  from Some have "buffer c @ t = m @ drop (length m) (buffer c @ t)"
    by (rule boundaryMatch_prefix)
  with r have "buffer c @ t = m @ buffer c'" by simp
  moreover have "out = nonEmpty [trim m]"
    using r boundaryMatch_trim_ne [OF Some] by (simp add: nonEmpty_def)
  ultimately show ?thesis by blast
qed

lemma nonEmpty_append [simp]: "nonEmpty (xs @ ys) = nonEmpty xs @ nonEmpty ys"
  by (simp add: nonEmpty_def)

lemma TextChunker_feed_pieces:
  "TextChunker_feed c ts = (outs, c') \<Longrightarrow>
   \<exists>pieces. buffer c @ concat ts = concat pieces @ buffer c' \<and> outs = nonEmpty (map trim pieces)"
proof (induction ts arbitrary: c outs c')
  case Nil
  then have "buffer c @ concat [] = concat [] @ buffer c' \<and> outs = nonEmpty (map trim [])"
    by (simp add: nonEmpty_def)
  then show ?case by blast
next
  case (Cons t ts)
  obtain r c1 where s1: "TextChunker_add c t = (r, c1)" by (cases "TextChunker_add c t")
  obtain os c2 where s2: "TextChunker_feed c1 ts = (os, c2)" by (cases "TextChunker_feed c1 ts")
  from Cons.prems s1 s2 have res: "outs = truthy r @ os" "c' = c2" by simp_all
  from TextChunker_add_piece [OF s1] obtain m where
    m: "buffer c @ t = m @ buffer c1" "truthy r = nonEmpty [trim m]" by blast
  from Cons.IH [OF s2] obtain ps where
    ps: "buffer c1 @ concat ts = concat ps @ buffer c2" "os = nonEmpty (map trim ps)" by blast
  have "buffer c @ concat (t # ts) = (buffer c @ t) @ concat ts" by simp
  also have "\<dots> = m @ concat ps @ buffer c2" using m(1) ps(1) by simp
  finally have "buffer c @ concat (t # ts) = concat (m # ps) @ buffer c'"
    using res(2) by simp
  moreover have "outs = nonEmpty (map trim (m # ps))"
    using res(1) m(2) ps(2) nonEmpty_append [of "[trim m]" "map trim ps"] by simp
  ultimately show ?case by blast
qed

lemma LLMTextChunker_feed_pieces:
  "LLMTextChunker_feed c ts = (outs, c') \<Longrightarrow>
   \<exists>pieces. buffer c @ concat ts = concat pieces @ buffer c' \<and> outs = nonEmpty (map trim pieces)"
proof (induction ts arbitrary: c outs c')
  case Nil
  then have "buffer c @ concat [] = concat [] @ buffer c' \<and> outs = nonEmpty (map trim [])"
    by (simp add: nonEmpty_def)
  then show ?case by blast
next
  case (Cons t ts)
  obtain r c1 where s1: "LLMTextChunker_addToken c t = (r, c1)"
    by (cases "LLMTextChunker_addToken c t")
  obtain os c2 where s2: "LLMTextChunker_feed c1 ts = (os, c2)"
    by (cases "LLMTextChunker_feed c1 ts")
  from Cons.prems s1 s2 have res: "outs = r @ os" "c' = c2" by simp_all
  from LLMTextChunker_addToken_piece [OF s1] obtain m where
    m: "buffer c @ t = m @ buffer c1" "r = nonEmpty [trim m]" by blast
  from Cons.IH [OF s2] obtain ps where
    ps: "buffer c1 @ concat ts = concat ps @ buffer c2" "os = nonEmpty (map trim ps)" by blast
  have "buffer c @ concat (t # ts) = (buffer c @ t) @ concat ts" by simp
  also have "\<dots> = m @ concat ps @ buffer c2" using m(1) ps(1) by simp
  finally have "buffer c @ concat (t # ts) = concat (m # ps) @ buffer c'"
    using res(2) by simp
  moreover have "outs = nonEmpty (map trim (m # ps))"
    using res(1) m(2) ps(2) nonEmpty_append [of "[trim m]" "map trim ps"] by simp
  ultimately show ?case by blast
qed

lemma TextChunker_run_pieces:
  "\<exists>pieces. concat pieces = buffer c @ concat ts \<and>
     fst (TextChunker_run c ts) = nonEmpty (map trim pieces)"
proof -
  obtain os c1 where s1: "TextChunker_feed c ts = (os, c1)" by (cases "TextChunker_feed c ts")
  from TextChunker_feed_pieces [OF s1] obtain ps where
    ps: "buffer c @ concat ts = concat ps @ buffer c1" "os = nonEmpty (map trim ps)" by blast
  obtain r c2 where s2: "TextChunker_flush c1 = (r, c2)" by (cases "TextChunker_flush c1")
  then have "truthy r = nonEmpty [trim (buffer c1)]"
    by (auto simp: TextChunker_flush_def truthy_def nonEmpty_def split: if_splits)
  then have "fst (TextChunker_run c ts) = nonEmpty (map trim (ps @ [buffer c1]))"
    using s1 s2 ps(2) by (simp add: TextChunker_run_def)
  moreover have "concat (ps @ [buffer c1]) = buffer c @ concat ts" using ps(1) by simp
  ultimately show ?thesis by blast
qed

lemma LLMTextChunker_run_pieces:
  "\<exists>pieces. concat pieces = buffer c @ concat ts \<and>
     fst (LLMTextChunker_run c ts) = nonEmpty (map trim pieces)"
proof -
  obtain os c1 where s1: "LLMTextChunker_feed c ts = (os, c1)"
    by (cases "LLMTextChunker_feed c ts")
  from LLMTextChunker_feed_pieces [OF s1] obtain ps where
    ps: "buffer c @ concat ts = concat ps @ buffer c1" "os = nonEmpty (map trim ps)" by blast
  obtain r c2 where s2: "LLMTextChunker_flush c1 = (r, c2)"
    by (cases "LLMTextChunker_flush c1")
  then have "r = nonEmpty [trim (buffer c1)]"
    by (auto simp: LLMTextChunker_flush_def emitChunk_def nonEmpty_def split: if_splits)
  then have "fst (LLMTextChunker_run c ts) = nonEmpty (map trim (ps @ [buffer c1]))"
    using s1 s2 ps(2) by (simp add: LLMTextChunker_run_def)
  moreover have "concat (ps @ [buffer c1]) = buffer c @ concat ts" using ps(1) by simp
  ultimately show ?thesis by blast
qed

lemma filter_concat_trims:
  "filter (\<lambda>x. \<not> isWhiteSpace x) (concat (nonEmpty (map trim ps))) =
   filter (\<lambda>x. \<not> isWhiteSpace x) (concat ps)"
proof (induction ps)
  case Nil
  then show ?case by (simp add: nonEmpty_def)
next
  case (Cons a ps)
  have "trim a = [] \<Longrightarrow> filter (\<lambda>x. \<not> isWhiteSpace x) a = []"
    by (simp add: trim_eq_Nil_iff filter_empty_conv)
  with Cons show ?case by (auto simp: nonEmpty_def filter_trim)
qed

text \<open>
  Claim C7. Whatever the buffer holds at the start and whatever fragments are fed before the
  one \<open>flush\<close>, the text (the buffer followed by the fragments) can be cut into consecutive
  pieces so that the chunks emitted, in emission order, are exactly the trimmed pieces that
  are not empty: the chunks are the input with whitespace trimmed at chunk boundaries. In
  particular the code units that are not whitespace are the same, in the same order, in the
  chunks and in the input.
\<close>

theorem chunks_reproduce_input:
  "(\<exists>pieces. concat pieces = buffer c @ concat ts \<and>
      fst (TextChunker_run c ts) = nonEmpty (map trim pieces)) \<and>
   (\<exists>pieces. concat pieces = buffer c @ concat ts \<and>
      fst (LLMTextChunker_run c ts) = nonEmpty (map trim pieces)) \<and>
   filter (\<lambda>x. \<not> isWhiteSpace x) (concat (fst (TextChunker_run c ts))) =
     filter (\<lambda>x. \<not> isWhiteSpace x) (buffer c @ concat ts) \<and>
   filter (\<lambda>x. \<not> isWhiteSpace x) (concat (fst (LLMTextChunker_run c ts))) =
     filter (\<lambda>x. \<not> isWhiteSpace x) (buffer c @ concat ts)"
proof -
  obtain ps where ps: "concat ps = buffer c @ concat ts"
    "fst (TextChunker_run c ts) = nonEmpty (map trim ps)"
    using TextChunker_run_pieces by blast
  obtain qs where qs: "concat qs = buffer c @ concat ts"
    "fst (LLMTextChunker_run c ts) = nonEmpty (map trim qs)"
    using LLMTextChunker_run_pieces by blast
  have "filter (\<lambda>x. \<not> isWhiteSpace x) (concat (fst (TextChunker_run c ts))) =
     filter (\<lambda>x. \<not> isWhiteSpace x) (buffer c @ concat ts)"
    using ps filter_concat_trims [of ps] by simp
  moreover have "filter (\<lambda>x. \<not> isWhiteSpace x) (concat (fst (LLMTextChunker_run c ts))) =
     filter (\<lambda>x. \<not> isWhiteSpace x) (buffer c @ concat ts)"
    using qs filter_concat_trims [of qs] by simp
  ultimately show ?thesis using ps qs by blast
qed

subsection \<open>Claim C8: the chunking example\<close>

lemma lazyMatch_no_T: "\<forall>x \<in> set xs. \<not> T x \<Longrightarrow> lazyMatch T d xs = None"
  by (induction xs) auto

lemma lazyMatch_snoc_no_T: "\<forall>x \<in> set xs. \<not> T x \<Longrightarrow> lazyMatch T d (xs @ [t]) = None"
  by (induction xs) auto

lemma lazyMatch_prefix_none:
  assumes "\<forall>x \<in> set X. \<not> T x" and "prefix q (X @ [t])"
  shows "lazyMatch T d q = None"
proof -
  from assms(2) have "q = X @ [t] \<or> prefix q X" by (simp add: prefix_snoc)
  then show ?thesis
  proof
    assume "q = X @ [t]"
    then show ?thesis using assms(1) by (simp add: lazyMatch_snoc_no_T)
  next
    assume "prefix q X"
    then have "set q \<subseteq> set X" by (rule set_mono_prefix)
    with assms(1) show ?thesis by (intro lazyMatch_no_T) blast
  qed
qed

lemma boundaryMatch_prefix_none:
  assumes "\<forall>x \<in> set X. \<not> isSentenceEnd x" and "prefix q (X @ [t])" and "length X < 50"
  shows "boundaryMatch d minC q = None"
proof -
  have "lazyMatch isSentenceEnd d q = None"
    using assms(1,2) by (rule lazyMatch_prefix_none)
  moreover have "length q \<le> 50"
    using prefix_length_le [OF assms(2)] assms(3) by simp
  ultimately show ?thesis by (simp add: boundaryMatch_def)
qed

lemma lazyMatch_skip:
  "\<forall>x \<in> set X. \<not> T x \<and> \<not> isLineTerminator x \<Longrightarrow>
   lazyMatch T d (X @ ys) = (case lazyMatch T d ys of None \<Rightarrow> None | Some m \<Rightarrow> Some (X @ m))"
  by (induction X) (auto split: option.splits)

lemma boundaryMatch_first_sentence:
  assumes "\<forall>x \<in> set X. \<not> isSentenceEnd x \<and> \<not> isLineTerminator x"
    and "isSentenceEnd t" and "isWhiteSpace w" and "y = [] \<or> \<not> isWhiteSpace (hd y)"
    and "minC \<le> length X + 2"
  shows "boundaryMatch d minC (X @ t # w # y) = Some (X @ [t, w])"
proof -
  have "takeWhile isWhiteSpace y = []" using assms(4) by (cases y) auto
  then have "lazyMatch isSentenceEnd d (t # w # y) = Some [t, w]"
    using assms(2,3) by simp
  then have "lazyMatch isSentenceEnd d (X @ t # w # y) = Some (X @ [t, w])"
    using assms(1) by (simp add: lazyMatch_skip)
  then show ?thesis using assms(5) by (simp add: boundaryMatch_def)
qed

lemma whole: "js ''Sure, let's break this down. First, here's how it works.'' =
    sentenceA @ fullStop # blank # sentenceB @ [fullStop]"
  by (simp add: sentenceA_def sentenceB_def fullStop_def blank_def js_def)

lemma A_plain: "\<forall>x \<in> set sentenceA. \<not> isSentenceEnd x \<and> \<not> isLineTerminator x"
  by (simp add: sentenceA_def js_eval)

lemma B_plain: "\<forall>x \<in> set sentenceB. \<not> isSentenceEnd x"
  by (simp add: sentenceB_def js_eval)

lemma B_hd: "\<not> isWhiteSpace (hd (sentenceB @ [fullStop]))"
  by (simp add: sentenceB_def js_eval)

lemma dot_sp: "isSentenceEnd fullStop" "isWhiteSpace blank" "\<not> isWhiteSpace fullStop"
  by (simp_all add: fullStop_def blank_def js_eval)

lemma lens: "length sentenceA = 27" "length sentenceB = 26"
  by (simp_all add: sentenceA_def sentenceB_def js_def)

lemma trimA: "trim (sentenceA @ [fullStop, blank]) = sentenceA @ [fullStop]"
  by (simp add: sentenceA_def fullStop_def blank_def trim_def js_eval)

lemma trimB: "trim (sentenceB @ [fullStop]) = sentenceB @ [fullStop]"
  by (simp add: sentenceB_def fullStop_def trim_def js_eval)

text \<open>One step on a buffer that is a prefix of the text.\<close>

lemma step_cases:
  assumes "q @ r = sentenceA @ fullStop # blank # sentenceB @ [fullStop]"
  shows "(length q \<le> 28 \<and> boundaryMatch d 20 q = None) \<or>
         (\<exists>y. q = sentenceA @ fullStop # blank # y \<and> y @ r = sentenceB @ [fullStop] \<and>
              boundaryMatch d 20 q = Some (sentenceA @ [fullStop, blank]))"
proof (cases "length q \<le> 28")
  case True
  have "q = take (length q) (q @ r)" by simp
  also have "\<dots> = take (length q) ((sentenceA @ [fullStop]) @ (blank # sentenceB @ [fullStop]))"
    using assms by simp
  also have "\<dots> = take (length q) (sentenceA @ [fullStop])"
    using True lens by (simp del: append_assoc)
  finally have "prefix q (sentenceA @ [fullStop])" by (metis take_is_prefix)
  then have "boundaryMatch d 20 q = None"
    using A_plain lens by (intro boundaryMatch_prefix_none [where X = sentenceA and t = fullStop]) auto
  with True show ?thesis by blast
next
  case False
  define y where "y = drop 29 q"
  have S: "q @ r = (sentenceA @ [fullStop, blank]) @ (sentenceB @ [fullStop])" using assms by simp
  have l29: "length (sentenceA @ [fullStop, blank]) = 29" using lens by simp
  have "take 29 q = take 29 (q @ r)" using False by simp
  also have "\<dots> = sentenceA @ [fullStop, blank]" unfolding S using l29 by (simp del: append_assoc)
  finally have "q = (sentenceA @ [fullStop, blank]) @ y"
    unfolding y_def by (metis append_take_drop_id)
  moreover have "y @ r = drop 29 (q @ r)" unfolding y_def using False by simp
  then have "y @ r = sentenceB @ [fullStop]" unfolding S using l29 by (simp del: append_assoc)
  ultimately have y: "q = (sentenceA @ [fullStop, blank]) @ y" "y @ r = sentenceB @ [fullStop]" by blast+
  have "y = [] \<or> \<not> isWhiteSpace (hd y)"
  proof (cases y)
    case Nil
    then show ?thesis by simp
  next
    case (Cons a as)
    with y(2) have "hd y = hd (sentenceB @ [fullStop])" by (metis hd_append2 list.distinct(1))
    with B_hd show ?thesis by simp
  qed
  then have "boundaryMatch d 20 (sentenceA @ fullStop # blank # y) = Some (sentenceA @ [fullStop, blank])"
    using A_plain dot_sp lens by (intro boundaryMatch_first_sentence) auto
  with y show ?thesis by auto
qed

lemma rest_none:
  assumes "q @ r = sentenceB @ [fullStop]"
  shows "boundaryMatch d 20 q = None"
proof -
  have "prefix q (sentenceB @ [fullStop])" using assms by (metis prefixI)
  then show ?thesis
    using B_plain lens by (intro boundaryMatch_prefix_none [where X = sentenceB and t = fullStop]) auto
qed

lemma LLM_feed_rest:
  "buffer c @ concat ts = sentenceB @ [fullStop] \<Longrightarrow> minChars c = 20 \<Longrightarrow>
   LLMTextChunker_feed c ts = ([], c\<lparr>buffer := sentenceB @ [fullStop]\<rparr>)"
proof (induction ts arbitrary: c)
  case Nil
  then show ?case by simp
next
  case (Cons t ts)
  let ?c1 = "c\<lparr>buffer := buffer c @ t\<rparr>"
  have "(buffer c @ t) @ concat ts = sentenceB @ [fullStop]" using Cons.prems(1) by simp
  then have "boundaryMatch False 20 (buffer c @ t) = None" by (rule rest_none)
  then have s: "LLMTextChunker_addToken c t = ([], ?c1)"
    using Cons.prems(2) by (simp add: LLMTextChunker_addToken_def)
  have "LLMTextChunker_feed ?c1 ts = ([], ?c1\<lparr>buffer := sentenceB @ [fullStop]\<rparr>)"
    using Cons.prems by (intro Cons.IH) simp_all
  with s show ?case by simp
qed

lemma Text_feed_rest:
  "buffer c @ concat ts = sentenceB @ [fullStop] \<Longrightarrow> minChars c = 20 \<Longrightarrow>
   TextChunker_feed c ts = ([], c\<lparr>buffer := sentenceB @ [fullStop]\<rparr>)"
proof (induction ts arbitrary: c)
  case Nil
  then show ?case by simp
next
  case (Cons t ts)
  let ?c1 = "c\<lparr>buffer := buffer c @ t\<rparr>"
  have "(buffer c @ t) @ concat ts = sentenceB @ [fullStop]" using Cons.prems(1) by simp
  then have "boundaryMatch True 20 (buffer c @ t) = None" by (rule rest_none)
  then have s: "TextChunker_add c t = (None, ?c1)"
    using Cons.prems(2) by (simp add: TextChunker_add_def)
  have "TextChunker_feed ?c1 ts = ([], ?c1\<lparr>buffer := sentenceB @ [fullStop]\<rparr>)"
    using Cons.prems by (intro Cons.IH) simp_all
  with s show ?case by (simp add: truthy_def)
qed

lemma LLM_feed_whole:
  "buffer c @ concat ts = sentenceA @ fullStop # blank # sentenceB @ [fullStop] \<Longrightarrow>
   length (buffer c) \<le> 28 \<Longrightarrow> minChars c = 20 \<Longrightarrow>
   LLMTextChunker_feed c ts = ([sentenceA @ [fullStop]], c\<lparr>buffer := sentenceB @ [fullStop]\<rparr>)"
proof (induction ts arbitrary: c)
  case Nil
  then show ?case using lens by (auto dest: arg_cong [where f = length])
next
  case (Cons t ts)
  have eq: "(buffer c @ t) @ concat ts = sentenceA @ fullStop # blank # sentenceB @ [fullStop]"
    using Cons.prems(1) by simp
  from step_cases [OF eq, of False] show ?case
  proof
    assume a: "length (buffer c @ t) \<le> 28 \<and> boundaryMatch False 20 (buffer c @ t) = None"
    let ?c1 = "c\<lparr>buffer := buffer c @ t\<rparr>"
    from a have s: "LLMTextChunker_addToken c t = ([], ?c1)"
      using Cons.prems(3) by (simp add: LLMTextChunker_addToken_def)
    have "LLMTextChunker_feed ?c1 ts = ([sentenceA @ [fullStop]], ?c1\<lparr>buffer := sentenceB @ [fullStop]\<rparr>)"
      using Cons.prems a by (intro Cons.IH) simp_all
    with s show ?thesis by simp
  next
    assume "\<exists>y. buffer c @ t = sentenceA @ fullStop # blank # y \<and> y @ concat ts = sentenceB @ [fullStop] \<and>
              boundaryMatch False 20 (buffer c @ t) = Some (sentenceA @ [fullStop, blank])"
    then obtain y where y: "buffer c @ t = sentenceA @ fullStop # blank # y"
      "y @ concat ts = sentenceB @ [fullStop]"
      "boundaryMatch False 20 (buffer c @ t) = Some (sentenceA @ [fullStop, blank])" by blast
    let ?c1 = "c\<lparr>buffer := y\<rparr>"
    have "drop (length (sentenceA @ [fullStop, blank])) (buffer c @ t) = y"
      unfolding y(1) by simp
    then have s: "LLMTextChunker_addToken c t = ([sentenceA @ [fullStop]], ?c1)"
      using y(3) Cons.prems(3) trimA
      by (simp add: LLMTextChunker_addToken_def emitChunk_def del: drop_append)
    have "LLMTextChunker_feed ?c1 ts = ([], ?c1\<lparr>buffer := sentenceB @ [fullStop]\<rparr>)"
      using y(2) Cons.prems(3) by (intro LLM_feed_rest) simp_all
    with s show ?thesis by simp
  qed
qed

lemma Text_feed_whole:
  "buffer c @ concat ts = sentenceA @ fullStop # blank # sentenceB @ [fullStop] \<Longrightarrow>
   length (buffer c) \<le> 28 \<Longrightarrow> minChars c = 20 \<Longrightarrow>
   TextChunker_feed c ts = ([sentenceA @ [fullStop]], c\<lparr>buffer := sentenceB @ [fullStop]\<rparr>)"
proof (induction ts arbitrary: c)
  case Nil
  then show ?case using lens by (auto dest: arg_cong [where f = length])
next
  case (Cons t ts)
  have eq: "(buffer c @ t) @ concat ts = sentenceA @ fullStop # blank # sentenceB @ [fullStop]"
    using Cons.prems(1) by simp
  from step_cases [OF eq, of True] show ?case
  proof
    assume a: "length (buffer c @ t) \<le> 28 \<and> boundaryMatch True 20 (buffer c @ t) = None"
    let ?c1 = "c\<lparr>buffer := buffer c @ t\<rparr>"
    from a have s: "TextChunker_add c t = (None, ?c1)"
      using Cons.prems(3) by (simp add: TextChunker_add_def)
    have "TextChunker_feed ?c1 ts = ([sentenceA @ [fullStop]], ?c1\<lparr>buffer := sentenceB @ [fullStop]\<rparr>)"
      using Cons.prems a by (intro Cons.IH) simp_all
    with s show ?thesis by (simp add: truthy_def)
  next
    assume "\<exists>y. buffer c @ t = sentenceA @ fullStop # blank # y \<and> y @ concat ts = sentenceB @ [fullStop] \<and>
              boundaryMatch True 20 (buffer c @ t) = Some (sentenceA @ [fullStop, blank])"
    then obtain y where y: "buffer c @ t = sentenceA @ fullStop # blank # y"
      "y @ concat ts = sentenceB @ [fullStop]"
      "boundaryMatch True 20 (buffer c @ t) = Some (sentenceA @ [fullStop, blank])" by blast
    let ?c1 = "c\<lparr>buffer := y\<rparr>"
    have "drop (length (sentenceA @ [fullStop, blank])) (buffer c @ t) = y"
      unfolding y(1) by simp
    then have s: "TextChunker_add c t = (Some (sentenceA @ [fullStop]), ?c1)"
      using y(3) Cons.prems(3) trimA
      by (simp add: TextChunker_add_def del: drop_append)
    have "TextChunker_feed ?c1 ts = ([], ?c1\<lparr>buffer := sentenceB @ [fullStop]\<rparr>)"
      using y(2) Cons.prems(3) by (intro Text_feed_rest) simp_all
    with s show ?thesis by (simp add: truthy_def)
  qed
qed

lemma AB_literals:
  "sentenceA @ [fullStop] = js ''Sure, let's break this down.''"
  "sentenceB @ [fullStop] = js ''First, here's how it works.''"
  by (simp_all add: sentenceA_def sentenceB_def fullStop_def js_def)

text \<open>
  Claim C8. With \<open>minChars = 20\<close>, however the text
  \<open>Sure, let's break this down. First, here's how it works.\<close> is cut into tokens (empty
  tokens included), feeding the tokens in order to a fresh chunker and flushing once emits
  exactly two chunks: \<open>Sure, let's break this down.\<close> and then
  \<open>First, here's how it works.\<close>
\<close>

theorem two_sentences_two_chunks:
  assumes "concat ts = js ''Sure, let's break this down. First, here's how it works.''"
  shows "fst (LLMTextChunker_run (LLMTextChunker_new 20) ts) =
           [js ''Sure, let's break this down.'', js ''First, here's how it works.''] \<and>
         fst (TextChunker_run TextChunker_new ts) =
           [js ''Sure, let's break this down.'', js ''First, here's how it works.'']"
proof -
  have B_ne: "sentenceB @ [fullStop] \<noteq> []" by simp
  have A_ne: "sentenceA @ [fullStop] \<noteq> []" by simp
  have 1: "LLMTextChunker_feed (LLMTextChunker_new 20) ts =
      ([sentenceA @ [fullStop]], (LLMTextChunker_new 20)\<lparr>buffer := sentenceB @ [fullStop]\<rparr>)"
    using assms whole by (intro LLM_feed_whole) (simp_all add: LLMTextChunker_new_def)
  have 2: "TextChunker_feed TextChunker_new ts =
      ([sentenceA @ [fullStop]], TextChunker_new\<lparr>buffer := sentenceB @ [fullStop]\<rparr>)"
    using assms whole by (intro Text_feed_whole) (simp_all add: TextChunker_new_def)
  have "fst (LLMTextChunker_run (LLMTextChunker_new 20) ts) = [sentenceA @ [fullStop], sentenceB @ [fullStop]]"
    using 1 trimB B_ne
    by (simp add: LLMTextChunker_run_def LLMTextChunker_flush_def emitChunk_def)
  moreover have "fst (TextChunker_run TextChunker_new ts) = [sentenceA @ [fullStop], sentenceB @ [fullStop]]"
    using 2 trimB B_ne A_ne
    by (simp add: TextChunker_run_def TextChunker_flush_def truthy_def)
  ultimately show ?thesis by (simp only: AB_literals)
qed

theorem two_sentences_two_chunks_witness:
  "concat [js ''Sure, let's '', js ''break this down. First,'', [], js '' here's how it works.''] =
     js ''Sure, let's break this down. First, here's how it works.'' \<and>
   fst (LLMTextChunker_run (LLMTextChunker_new 20)
        [js ''Sure, let's '', js ''break this down. First,'', [], js '' here's how it works.'']) =
     [js ''Sure, let's break this down.'', js ''First, here's how it works.''] \<and>
   fst (TextChunker_run TextChunker_new
        [js ''Sure, let's '', js ''break this down. First,'', [], js '' here's how it works.'']) =
     [js ''Sure, let's break this down.'', js ''First, here's how it works.'']"
proof -
  have c: "concat [js ''Sure, let's '', js ''break this down. First,'', [], js '' here's how it works.''] =
     js ''Sure, let's break this down. First, here's how it works.''"
    by (simp add: js_def)
  from two_sentences_two_chunks [OF c] c show ?thesis by blast
qed

section \<open>The audio players: proofs\<close>

lemma stopSources_length [simp]: "length (stopSources now hs nodes) = length nodes"
  by (induction hs arbitrary: nodes) auto

lemma stopSource_stopped [simp]: "stoppedAt (stopSource now s) \<noteq> None"
  by (simp add: stopSource_def split: option.splits)

lemma stopSource_stopped_ex [simp]: "\<exists>t. stoppedAt (stopSource now s) = Some t"
  by (cases "stoppedAt s") (simp_all add: stopSource_def)

lemma stopSource_fresh: "stoppedAt s = None \<Longrightarrow> stoppedAt (stopSource now s) = Some now"
  by (simp add: stopSource_def)

lemma stopSource_keeps: "stoppedAt s \<noteq> None \<Longrightarrow> stopSource now s = s"
  by (auto simp: stopSource_def)

lemma stopSource_fields [simp]:
  "startAt (stopSource now s) = startAt s" "duration (stopSource now s) = duration s"
  "channelData (stopSource now s) = channelData s"
  by (simp_all add: stopSource_def split: option.splits)

lemma stopSources_nth:
  "i < length nodes \<Longrightarrow>
   stopSources now hs nodes ! i = (if i \<in> set hs then stopSource now (nodes ! i) else nodes ! i)"
proof (induction hs arbitrary: nodes)
  case Nil
  then show ?case by simp
next
  case (Cons h hs)
  let ?n1 = "if h < length nodes then nodes[h := stopSource now (nodes ! h)] else nodes"
  have len: "i < length ?n1" using Cons.prems by simp
  have idem: "stopSource now (stopSource now s) = stopSource now s" for s :: "'a sourceNode"
    by (simp add: stopSource_keeps)
  show ?case
    using Cons.IH [OF len] Cons.prems
    by (auto simp: nth_list_update idem)
qed

lemma length_int16Array: "length (int16Array bs) = length bs div 2"
  by (induction bs rule: int16Array.induct) (simp_all add: Let_def)

lemma wholeSamples_decodes: "wholeSamples val \<Longrightarrow> length (toFloat32 (int16Array val)) \<noteq> 0"
proof -
  assume "wholeSamples val"
  then have "even (length val)" "length val \<noteq> 0" by (simp_all add: wholeSamples_def)
  then have "2 \<le> length val" by presburger
  then show ?thesis by (simp add: toFloat32_def length_int16Array)
qed


lemma handlesOk_alt:
  "handlesOk hs (Some nodes) \<longleftrightarrow>
     (\<forall>h \<in> set hs. h < length nodes \<and> stoppedAt (nodes ! h) = None) \<and>
     (\<forall>i < length nodes. i \<in> set hs \<or> stoppedAt (nodes ! i) \<noteq> None)"
  by (auto simp: handlesOk_def list_all_iff)

lemma handlesOk_snoc:
  assumes "handlesOk hs (Some nodes)" and "stoppedAt s = None"
  shows "handlesOk (hs @ [length nodes]) (Some (nodes @ [s]))"
  using assms unfolding handlesOk_alt
  by (auto simp: nth_append less_Suc_eq)

lemma handlesOk_stopped:
  assumes "handlesOk hs (Some nodes)"
  shows "handlesOk [] (Some (stopSources now hs nodes))"
  using assms unfolding handlesOk_alt
  by (auto simp: stopSources_nth)

lemma stopped_all:
  assumes "handlesOk hs (Some nodes)"
  shows "list_all (\<lambda>n. stoppedAt n \<noteq> None) (stopSources now hs nodes)"
proof -
  have "stoppedAt (stopSources now hs nodes ! i) \<noteq> None" if "i < length nodes" for i
    using assms that unfolding handlesOk_alt by (auto simp: stopSources_nth)
  then show ?thesis by (auto simp: list_all_iff in_set_conv_nth)
qed

lemma stopped_retained:
  assumes "handlesOk hs (Some nodes)"
  shows "list_all (\<lambda>h. stoppedAt (stopSources now hs nodes ! h) = Some now) hs"
  using assms unfolding handlesOk_alt
  by (auto simp: list_all_iff stopSources_nth stopSource_fresh)

lemma stopped_timing:
  "i < length nodes \<Longrightarrow>
   startAt (stopSources now hs nodes ! i) = startAt (nodes ! i) \<and>
   duration (stopSources now hs nodes ! i) = duration (nodes ! i)"
  by (simp add: stopSources_nth)

text \<open>The handles are sound initially and every method keeps them so.\<close>

lemma handlesOk_AudioStreamPlayer_new:
  "handlesOk (scheduledBuffers (AudioStreamPlayer_new rate)) (audioContext (AudioStreamPlayer_new rate))"
  by (simp add: AudioStreamPlayer_new_def handlesOk_def)

lemma handlesOk_AudioStreamPlayer_init:
  "handlesOk (scheduledBuffers p) (audioContext p) \<Longrightarrow>
   handlesOk (scheduledBuffers (AudioStreamPlayer_init now p)) (audioContext (AudioStreamPlayer_init now p))"
  by (cases "audioContext p") (simp_all add: AudioStreamPlayer_init_def handlesOk_def)

lemma handlesOk_AudioStreamPlayer_addChunk:
  assumes "handlesOk (scheduledBuffers p) (audioContext p)"
    and "AudioStreamPlayer_addChunk bufferDuration now p pcmData = Inr p'"
  shows "handlesOk (scheduledBuffers p') (audioContext p')"
proof (cases "audioContext p")
  case None
  with assms show ?thesis by (simp add: AudioStreamPlayer_addChunk_def)
next
  case (Some nodes)
  show ?thesis
  proof (cases "isPlaying p")
    case False
    with assms Some show ?thesis by (simp add: AudioStreamPlayer_addChunk_def)
  next
    case True
    let ?f = "toFloat32 (int16Array pcmData)"
    let ?s = "scheduleSource bufferDuration (sampleRate p) ?f (max (nextStartTime p) now)"
    from assms(2) Some True have
      "audioContext p' = Some (nodes @ [?s])" "scheduledBuffers p' = scheduledBuffers p @ [length nodes]"
      by (auto simp: AudioStreamPlayer_addChunk_def Let_def split: if_splits)
    moreover have "stoppedAt ?s = None" by (simp add: scheduleSource_def)
    ultimately show ?thesis using assms(1) Some by (simp add: handlesOk_snoc)
  qed
qed

lemma handlesOk_AudioStreamPlayer_stop:
  "handlesOk (scheduledBuffers p) (audioContext p) \<Longrightarrow>
   handlesOk (scheduledBuffers (AudioStreamPlayer_stop now p)) (audioContext (AudioStreamPlayer_stop now p))"
  by (cases "audioContext p") (simp_all add: AudioStreamPlayer_stop_def handlesOk_stopped, simp add: handlesOk_def)

lemma handlesOk_AudioStreamPlayer_close:
  "handlesOk (scheduledBuffers (AudioStreamPlayer_close now p)) (audioContext (AudioStreamPlayer_close now p))"
  by (simp add: AudioStreamPlayer_close_def AudioStreamPlayer_stop_def handlesOk_def)

lemma handlesOk_AudioQueuePlayer_new:
  "handlesOk (sources (AudioQueuePlayer_new rate)) (queueContext (AudioQueuePlayer_new rate))"
  by (simp add: AudioQueuePlayer_new_def handlesOk_def)

lemma handlesOk_AudioQueuePlayer_init:
  "handlesOk (sources p) (queueContext p) \<Longrightarrow>
   handlesOk (sources (AudioQueuePlayer_init now p)) (queueContext (AudioQueuePlayer_init now p))"
  by (cases "queueContext p") (simp_all add: AudioQueuePlayer_init_def handlesOk_def)

lemma handlesOk_AudioQueuePlayer_addPCM:
  assumes "handlesOk (sources p) (queueContext p)"
    and "AudioQueuePlayer_addPCM bufferDuration now p pcmBuffer = Inr p'"
  shows "handlesOk (sources p') (queueContext p')"
proof (cases "queueContext p")
  case None
  with assms show ?thesis by (simp add: AudioQueuePlayer_addPCM_def)
next
  case (Some nodes)
  let ?f = "toFloat32 (int16Array pcmBuffer)"
  let ?s = "scheduleSource bufferDuration (queueSampleRate p) ?f (max (queueNextStartTime p) now)"
  from assms(2) Some have
    "queueContext p' = Some (nodes @ [?s])" "sources p' = sources p @ [length nodes]"
    by (auto simp: AudioQueuePlayer_addPCM_def Let_def split: if_splits)
  moreover have "stoppedAt ?s = None" by (simp add: scheduleSource_def)
  ultimately show ?thesis using assms(1) Some by (simp add: handlesOk_snoc)
qed

lemma handlesOk_AudioQueuePlayer_stop:
  "handlesOk (sources p) (queueContext p) \<Longrightarrow>
   handlesOk (sources (AudioQueuePlayer_stop now p)) (queueContext (AudioQueuePlayer_stop now p))"
  by (cases "queueContext p") (simp_all add: AudioQueuePlayer_stop_def handlesOk_stopped, simp add: handlesOk_def)

lemma handlesOk_AudioQueuePlayer_close:
  "handlesOk (sources (AudioQueuePlayer_close now p)) (queueContext (AudioQueuePlayer_close now p))"
  by (cases "queueContext p")
    (simp_all add: AudioQueuePlayer_close_def AudioQueuePlayer_stop_def handlesOk_def)

text \<open>Hence the handles are sound in every state a player can be in.\<close>

lemma streamPlayerState_handlesOk:
  "streamPlayerState bufferDuration p \<Longrightarrow> handlesOk (scheduledBuffers p) (audioContext p)"
proof (induction rule: streamPlayerState.induct)
  case (constructed rate)
  show ?case by (rule handlesOk_AudioStreamPlayer_new)
next
  case (initialised p now)
  then show ?case by (simp add: handlesOk_AudioStreamPlayer_init)
next
  case (added p now pcmData p')
  then show ?case using handlesOk_AudioStreamPlayer_addChunk by blast
next
  case (stopped p now)
  then show ?case by (simp add: handlesOk_AudioStreamPlayer_stop)
next
  case (closed p now)
  show ?case by (rule handlesOk_AudioStreamPlayer_close)
qed

lemma queuePlayerState_handlesOk:
  "queuePlayerState bufferDuration p \<Longrightarrow> handlesOk (sources p) (queueContext p)"
proof (induction rule: queuePlayerState.induct)
  case (constructed rate)
  show ?case by (rule handlesOk_AudioQueuePlayer_new)
next
  case (initialised p now)
  then show ?case by (simp add: handlesOk_AudioQueuePlayer_init)
next
  case (added p now pcmBuffer p')
  then show ?case using handlesOk_AudioQueuePlayer_addPCM by blast
next
  case (stopped p now)
  then show ?case by (simp add: handlesOk_AudioQueuePlayer_stop)
next
  case (closed p now)
  show ?case by (rule handlesOk_AudioQueuePlayer_close)
qed

subsection \<open>Claim C10: adding audio to a player that is not ready\<close>

text \<open>
  Claim C10. \<open>addChunk\<close> on an \<open>AudioStreamPlayer\<close> that has no audio context or whose playing
  flag is clear, and \<open>addPCM\<close> on an \<open>AudioQueuePlayer\<close> that has no audio context, return
  normally and leave the player exactly as it was: nothing is scheduled, and the next start
  time and the retained handles are unchanged. This is the state of a player before
  \<open>init()\<close>, and of an \<open>AudioStreamPlayer\<close> after \<open>stop()\<close>.
\<close>

theorem add_is_noop_without_context:
  "(audioContext p = None \<or> \<not> isPlaying p \<longrightarrow>
      AudioStreamPlayer_addChunk bufferDuration now p pcmData = Inr p) \<and>
   (queueContext q = None \<longrightarrow>
      AudioQueuePlayer_addPCM bufferDuration now q pcmData = Inr q) \<and>
   AudioStreamPlayer_addChunk bufferDuration now (AudioStreamPlayer_new rate) pcmData =
     Inr (AudioStreamPlayer_new rate) \<and>
   AudioQueuePlayer_addPCM bufferDuration now (AudioQueuePlayer_new rate) pcmData =
     Inr (AudioQueuePlayer_new rate) \<and>
   AudioStreamPlayer_addChunk bufferDuration now (AudioStreamPlayer_stop t p) pcmData =
     Inr (AudioStreamPlayer_stop t p)"
  by (auto simp: AudioStreamPlayer_addChunk_def AudioQueuePlayer_addPCM_def
      AudioStreamPlayer_new_def AudioQueuePlayer_new_def AudioStreamPlayer_stop_def
      split: option.splits)

theorem add_is_noop_without_context_witness:
  "audioContext (AudioStreamPlayer_new 22050 :: int AudioStreamPlayer) = None \<and>
   AudioStreamPlayer_addChunk (\<lambda>n r. int n) 3 (AudioStreamPlayer_new 22050) [1, 2, 3, 4] =
     Inr (AudioStreamPlayer_new 22050) \<and>
   queueContext (AudioQueuePlayer_new 22050 :: int AudioQueuePlayer) = None \<and>
   AudioQueuePlayer_addPCM (\<lambda>n r. int n) 3 (AudioQueuePlayer_new 22050) [1, 2, 3, 4] =
     Inr (AudioQueuePlayer_new 22050) \<and>
   \<not> isPlaying (AudioStreamPlayer_stop 2 (AudioStreamPlayer_init 1 (AudioStreamPlayer_new 22050 :: int AudioStreamPlayer))) \<and>
   AudioStreamPlayer_addChunk (\<lambda>n r. int n) 3
     (AudioStreamPlayer_stop 2 (AudioStreamPlayer_init 1 (AudioStreamPlayer_new 22050))) [1, 2, 3, 4] =
     Inr (AudioStreamPlayer_stop 2 (AudioStreamPlayer_init 1 (AudioStreamPlayer_new 22050)))"
proof -
  have 1: "audioContext (AudioStreamPlayer_new 22050 :: int AudioStreamPlayer) = None"
    by (simp add: AudioStreamPlayer_new_def)
  have 2: "queueContext (AudioQueuePlayer_new 22050 :: int AudioQueuePlayer) = None"
    by (simp add: AudioQueuePlayer_new_def)
  have 3: "\<not> isPlaying (AudioStreamPlayer_stop 2 (AudioStreamPlayer_init 1 (AudioStreamPlayer_new 22050 :: int AudioStreamPlayer)))"
    by (simp add: AudioStreamPlayer_stop_def)
  show ?thesis
    using 1 2 3
      add_is_noop_without_context [of "AudioStreamPlayer_new 22050 :: int AudioStreamPlayer"
        "\<lambda>n r. int n" 3 "[1, 2, 3, 4]" "AudioQueuePlayer_new 22050" 22050 2]
      add_is_noop_without_context [of
        "AudioStreamPlayer_stop 2 (AudioStreamPlayer_init 1 (AudioStreamPlayer_new 22050 :: int AudioStreamPlayer))"
        "\<lambda>n r. int n" 3 "[1, 2, 3, 4]" "AudioQueuePlayer_new 22050" 22050 2]
    by simp
qed

subsection \<open>Claim C2: consecutive chunks\<close>

lemma AudioStreamPlayer_addChunk_Inr:
  assumes "audioContext p = Some nodes" and "isPlaying p"
    and "AudioStreamPlayer_addChunk bufferDuration now p pcmData = Inr p'"
  shows "\<exists>s. audioContext p' = Some (nodes @ [s]) \<and> isPlaying p' \<and>
           startAt s = max (nextStartTime p) now \<and> nextStartTime p' = startAt s + duration s"
  using assms
  by (auto simp: AudioStreamPlayer_addChunk_def Let_def scheduleSource_def split: if_splits)

lemma AudioQueuePlayer_addPCM_Inr:
  assumes "queueContext p = Some nodes"
    and "AudioQueuePlayer_addPCM bufferDuration now p pcmData = Inr p'"
  shows "\<exists>s. queueContext p' = Some (nodes @ [s]) \<and>
           startAt s = max (queueNextStartTime p) now \<and>
           queueNextStartTime p' = startAt s + duration s"
  using assms
  by (auto simp: AudioQueuePlayer_addPCM_def Let_def scheduleSource_def split: if_splits)

text \<open>
  Claim C2. When \<open>addChunk(A)\<close> and then \<open>addChunk(B)\<close> schedule on an initialised player
  (and likewise \<open>addPCM\<close>), each chunk starts at the maximum of the next start time and the
  device time of its call, the next start time afterwards is that start plus the chunk's
  duration, and B starts no earlier than A's start plus A's duration.
\<close>

theorem consecutive_chunks_do_not_overlap:
  "(audioContext p \<noteq> None \<and> isPlaying p \<and>
    AudioStreamPlayer_addChunk bufferDuration nowA p chunkA = Inr pA \<and>
    AudioStreamPlayer_addChunk bufferDuration nowB pA chunkB = Inr pB \<longrightarrow>
      startAt (lastScheduled (audioContext pA)) = max (nextStartTime p) nowA \<and>
      nextStartTime pA =
        startAt (lastScheduled (audioContext pA)) + duration (lastScheduled (audioContext pA)) \<and>
      startAt (lastScheduled (audioContext pB)) = max (nextStartTime pA) nowB \<and>
      nextStartTime pB =
        startAt (lastScheduled (audioContext pB)) + duration (lastScheduled (audioContext pB)) \<and>
      startAt (lastScheduled (audioContext pA)) + duration (lastScheduled (audioContext pA))
        \<le> startAt (lastScheduled (audioContext pB))) \<and>
   (queueContext q \<noteq> None \<and>
    AudioQueuePlayer_addPCM bufferDuration nowA q chunkA = Inr qA \<and>
    AudioQueuePlayer_addPCM bufferDuration nowB qA chunkB = Inr qB \<longrightarrow>
      startAt (lastScheduled (queueContext qA)) = max (queueNextStartTime q) nowA \<and>
      queueNextStartTime qA =
        startAt (lastScheduled (queueContext qA)) + duration (lastScheduled (queueContext qA)) \<and>
      startAt (lastScheduled (queueContext qB)) = max (queueNextStartTime qA) nowB \<and>
      queueNextStartTime qB =
        startAt (lastScheduled (queueContext qB)) + duration (lastScheduled (queueContext qB)) \<and>
      startAt (lastScheduled (queueContext qA)) + duration (lastScheduled (queueContext qA))
        \<le> startAt (lastScheduled (queueContext qB)))"
proof (intro conjI impI)
  assume a: "audioContext p \<noteq> None \<and> isPlaying p \<and>
    AudioStreamPlayer_addChunk bufferDuration nowA p chunkA = Inr pA \<and>
    AudioStreamPlayer_addChunk bufferDuration nowB pA chunkB = Inr pB"
  then obtain nodes where n: "audioContext p = Some nodes" by auto
  from AudioStreamPlayer_addChunk_Inr [OF n] a obtain sa where
    sa: "audioContext pA = Some (nodes @ [sa])" "isPlaying pA"
      "startAt sa = max (nextStartTime p) nowA" "nextStartTime pA = startAt sa + duration sa"
    by blast
  from AudioStreamPlayer_addChunk_Inr [OF sa(1,2)] a obtain sb where
    sb: "audioContext pB = Some ((nodes @ [sa]) @ [sb])"
      "startAt sb = max (nextStartTime pA) nowB" "nextStartTime pB = startAt sb + duration sb"
    by blast
  have la: "lastScheduled (audioContext pA) = sa" using sa(1) by (simp add: lastScheduled_def)
  have lb: "lastScheduled (audioContext pB) = sb" using sb(1) by (simp add: lastScheduled_def)
  show "startAt (lastScheduled (audioContext pA)) = max (nextStartTime p) nowA"
    using la sa by simp
  show "nextStartTime pA =
        startAt (lastScheduled (audioContext pA)) + duration (lastScheduled (audioContext pA))"
    using la sa by simp
  show "startAt (lastScheduled (audioContext pB)) = max (nextStartTime pA) nowB"
    using lb sb by simp
  show "nextStartTime pB =
        startAt (lastScheduled (audioContext pB)) + duration (lastScheduled (audioContext pB))"
    using lb sb by simp
  show "startAt (lastScheduled (audioContext pA)) + duration (lastScheduled (audioContext pA))
        \<le> startAt (lastScheduled (audioContext pB))"
    unfolding la lb sb(2) sa(4) by simp
next
  assume a: "queueContext q \<noteq> None \<and>
    AudioQueuePlayer_addPCM bufferDuration nowA q chunkA = Inr qA \<and>
    AudioQueuePlayer_addPCM bufferDuration nowB qA chunkB = Inr qB"
  then obtain nodes where n: "queueContext q = Some nodes" by auto
  from AudioQueuePlayer_addPCM_Inr [OF n] a obtain sa where
    sa: "queueContext qA = Some (nodes @ [sa])"
      "startAt sa = max (queueNextStartTime q) nowA"
      "queueNextStartTime qA = startAt sa + duration sa"
    by blast
  from AudioQueuePlayer_addPCM_Inr [OF sa(1)] a obtain sb where
    sb: "queueContext qB = Some ((nodes @ [sa]) @ [sb])"
      "startAt sb = max (queueNextStartTime qA) nowB"
      "queueNextStartTime qB = startAt sb + duration sb"
    by blast
  have la: "lastScheduled (queueContext qA) = sa" using sa(1) by (simp add: lastScheduled_def)
  have lb: "lastScheduled (queueContext qB) = sb" using sb(1) by (simp add: lastScheduled_def)
  show "startAt (lastScheduled (queueContext qA)) = max (queueNextStartTime q) nowA"
    using la sa by simp
  show "queueNextStartTime qA =
        startAt (lastScheduled (queueContext qA)) + duration (lastScheduled (queueContext qA))"
    using la sa by simp
  show "startAt (lastScheduled (queueContext qB)) = max (queueNextStartTime qA) nowB"
    using lb sb by simp
  show "queueNextStartTime qB =
        startAt (lastScheduled (queueContext qB)) + duration (lastScheduled (queueContext qB))"
    using lb sb by simp
  show "startAt (lastScheduled (queueContext qA)) + duration (lastScheduled (queueContext qA))
        \<le> startAt (lastScheduled (queueContext qB))"
    unfolding la lb sb(2) sa(3) by simp
qed

theorem consecutive_chunks_do_not_overlap_witness:
  "audioContext (AudioStreamPlayer_init 0 (AudioStreamPlayer_new 22050 :: int AudioStreamPlayer)) \<noteq> None \<and>
   isPlaying (AudioStreamPlayer_init 0 (AudioStreamPlayer_new 22050 :: int AudioStreamPlayer)) \<and>
   AudioStreamPlayer_addChunk (\<lambda>n r. int n) 0
     (AudioStreamPlayer_init 0 (AudioStreamPlayer_new 22050)) [1, 0, 2, 0] =
     Inr \<lparr>audioContext = Some [\<lparr>channelData = [1 / 32768, 2 / 32768], startAt = 0, duration = 2,
                                 stoppedAt = None\<rparr>],
          nextStartTime = 2, sampleRate = 22050, isPlaying = True, scheduledBuffers = [0]\<rparr> \<and>
   AudioStreamPlayer_addChunk (\<lambda>n r. int n) 1
     \<lparr>audioContext = Some [\<lparr>channelData = [1 / 32768, 2 / 32768], startAt = 0, duration = 2,
                             stoppedAt = None\<rparr>],
      nextStartTime = 2, sampleRate = 22050, isPlaying = True, scheduledBuffers = [0]\<rparr> [3, 0] =
     Inr \<lparr>audioContext = Some [\<lparr>channelData = [1 / 32768, 2 / 32768], startAt = 0, duration = 2,
                                 stoppedAt = None\<rparr>,
                                \<lparr>channelData = [3 / 32768], startAt = 2, duration = 1,
                                 stoppedAt = None\<rparr>],
          nextStartTime = 3, sampleRate = 22050, isPlaying = True, scheduledBuffers = [0, 1]\<rparr> \<and>
   queueContext (AudioQueuePlayer_init 0 (AudioQueuePlayer_new 22050 :: int AudioQueuePlayer)) \<noteq> None \<and>
   AudioQueuePlayer_addPCM (\<lambda>n r. int n) 0
     (AudioQueuePlayer_init 0 (AudioQueuePlayer_new 22050)) [1, 0, 2, 0] =
     Inr \<lparr>queueContext = Some [\<lparr>channelData = [1 / 32768, 2 / 32768], startAt = 0, duration = 2,
                                 stoppedAt = None\<rparr>],
          queueNextStartTime = 2, queueSampleRate = 22050, sources = [0]\<rparr> \<and>
   AudioQueuePlayer_addPCM (\<lambda>n r. int n) 5
     \<lparr>queueContext = Some [\<lparr>channelData = [1 / 32768, 2 / 32768], startAt = 0, duration = 2,
                             stoppedAt = None\<rparr>],
      queueNextStartTime = 2, queueSampleRate = 22050, sources = [0]\<rparr> [3, 0] =
     Inr \<lparr>queueContext = Some [\<lparr>channelData = [1 / 32768, 2 / 32768], startAt = 0, duration = 2,
                                 stoppedAt = None\<rparr>,
                                \<lparr>channelData = [3 / 32768], startAt = 5, duration = 1,
                                 stoppedAt = None\<rparr>],
          queueNextStartTime = 6, queueSampleRate = 22050, sources = [0, 1]\<rparr> \<and>
   (0::int) + 2 \<le> 2 \<and> (0::int) + 2 \<le> 5"
proof -
  let ?p = "AudioStreamPlayer_init 0 (AudioStreamPlayer_new 22050 :: int AudioStreamPlayer)"
  let ?sa = "\<lparr>channelData = [1 / 32768, 2 / 32768], startAt = 0::int, duration = 2, stoppedAt = None\<rparr>"
  let ?pA = "\<lparr>audioContext = Some [?sa],
          nextStartTime = 2, sampleRate = 22050, isPlaying = True, scheduledBuffers = [0]\<rparr>"
  let ?pB = "\<lparr>audioContext = Some [?sa, \<lparr>channelData = [3 / 32768], startAt = 2, duration = 1,
                                 stoppedAt = None\<rparr>],
          nextStartTime = 3, sampleRate = 22050, isPlaying = True, scheduledBuffers = [0, 1]\<rparr>"
  let ?q = "AudioQueuePlayer_init 0 (AudioQueuePlayer_new 22050 :: int AudioQueuePlayer)"
  let ?qA = "\<lparr>queueContext = Some [?sa],
          queueNextStartTime = 2, queueSampleRate = 22050, sources = [0]\<rparr>"
  let ?qB = "\<lparr>queueContext = Some [?sa, \<lparr>channelData = [3 / 32768], startAt = 5, duration = 1,
                                 stoppedAt = None\<rparr>],
          queueNextStartTime = 6, queueSampleRate = 22050, sources = [0, 1]\<rparr>"
  have p: "audioContext ?p \<noteq> None" "isPlaying ?p"
    by (simp_all add: AudioStreamPlayer_init_def AudioStreamPlayer_new_def)
  have a: "AudioStreamPlayer_addChunk (\<lambda>n r. int n) 0 ?p [1, 0, 2, 0] = Inr ?pA"
    by (simp add: AudioStreamPlayer_addChunk_def AudioStreamPlayer_init_def
        AudioStreamPlayer_new_def toFloat32_def scheduleSource_def Let_def)
  have b: "AudioStreamPlayer_addChunk (\<lambda>n r. int n) 1 ?pA [3, 0] = Inr ?pB"
    by (simp add: AudioStreamPlayer_addChunk_def toFloat32_def scheduleSource_def Let_def)
  have q: "queueContext ?q \<noteq> None"
    by (simp add: AudioQueuePlayer_init_def AudioQueuePlayer_new_def)
  have c: "AudioQueuePlayer_addPCM (\<lambda>n r. int n) 0 ?q [1, 0, 2, 0] = Inr ?qA"
    by (simp add: AudioQueuePlayer_addPCM_def AudioQueuePlayer_init_def
        AudioQueuePlayer_new_def toFloat32_def scheduleSource_def Let_def)
  have d: "AudioQueuePlayer_addPCM (\<lambda>n r. int n) 5 ?qA [3, 0] = Inr ?qB"
    by (simp add: AudioQueuePlayer_addPCM_def toFloat32_def scheduleSource_def Let_def)
  from consecutive_chunks_do_not_overlap
    [of ?p "\<lambda>n r. int n" 0 "[1, 0, 2, 0]" ?pA 1 "[3, 0]" ?pB ?q ?qA ?qB] p a b q
  have "startAt (lastScheduled (audioContext ?pA)) + duration (lastScheduled (audioContext ?pA))
        \<le> startAt (lastScheduled (audioContext ?pB))"
    by blast
  then have 1: "(0::int) + 2 \<le> 2" by (simp add: lastScheduled_def)
  show ?thesis using p a b q c d 1 by simp
qed

subsection \<open>Claim C5: stop\<close>

text \<open>
  Claim C5, as amended. On a player with a context, \<open>stop()\<close> at device time \<open>now\<close> stops
  every retained source node at \<open>now\<close>, after which every node of the context is stopped, and
  clears the retained handles. \<open>AudioQueuePlayer.stop\<close> resets the next start time to the
  device's current time; \<open>AudioStreamPlayer.stop\<close> resets it to 0 and clears the playing
  flag. After a fresh \<open>init()\<close> at device time \<open>now'\<close> the next start time is \<open>now'\<close>, and a
  chunk of whole samples added at \<open>now''\<close> is scheduled at the later of \<open>now'\<close> and \<open>now''\<close> as
  the one retained node, behind the stopped ones, which stay stopped.
\<close>

theorem stop_cancels_retained_and_resets:
  "(audioContext p = Some nodes \<and> handlesOk (scheduledBuffers p) (audioContext p) \<longrightarrow>
      audioContext (AudioStreamPlayer_stop now p) =
        Some (stopSources now (scheduledBuffers p) nodes) \<and>
      list_all (\<lambda>h. stoppedAt (stopSources now (scheduledBuffers p) nodes ! h) = Some now)
        (scheduledBuffers p) \<and>
      list_all (\<lambda>n. stoppedAt n \<noteq> None) (stopSources now (scheduledBuffers p) nodes) \<and>
      scheduledBuffers (AudioStreamPlayer_stop now p) = [] \<and>
      \<not> isPlaying (AudioStreamPlayer_stop now p) \<and>
      nextStartTime (AudioStreamPlayer_stop now p) = 0 \<and>
      nextStartTime (AudioStreamPlayer_init now' (AudioStreamPlayer_stop now p)) = now' \<and>
      handlesOk (scheduledBuffers (AudioStreamPlayer_init now' (AudioStreamPlayer_stop now p)))
        (audioContext (AudioStreamPlayer_init now' (AudioStreamPlayer_stop now p))) \<and>
      (wholeSamples pcmData \<longrightarrow>
         AudioStreamPlayer_addChunk bufferDuration now''
             (AudioStreamPlayer_init now' (AudioStreamPlayer_stop now p)) pcmData =
           Inr ((AudioStreamPlayer_init now' (AudioStreamPlayer_stop now p))
                \<lparr>audioContext :=
                   Some (stopSources now (scheduledBuffers p) nodes @
                         [scheduleSource bufferDuration (sampleRate p)
                            (toFloat32 (int16Array pcmData)) (max now' now'')]),
                 nextStartTime :=
                   max now' now'' +
                   bufferDuration (length (toFloat32 (int16Array pcmData))) (sampleRate p),
                 scheduledBuffers := [length nodes]\<rparr>))) \<and>
   (queueContext q = Some nodes \<and> handlesOk (sources q) (queueContext q) \<longrightarrow>
      queueContext (AudioQueuePlayer_stop now q) = Some (stopSources now (sources q) nodes) \<and>
      list_all (\<lambda>h. stoppedAt (stopSources now (sources q) nodes ! h) = Some now) (sources q) \<and>
      list_all (\<lambda>n. stoppedAt n \<noteq> None) (stopSources now (sources q) nodes) \<and>
      sources (AudioQueuePlayer_stop now q) = [] \<and>
      queueNextStartTime (AudioQueuePlayer_stop now q) = now \<and>
      queueNextStartTime (AudioQueuePlayer_init now' (AudioQueuePlayer_stop now q)) = now' \<and>
      handlesOk (sources (AudioQueuePlayer_init now' (AudioQueuePlayer_stop now q)))
        (queueContext (AudioQueuePlayer_init now' (AudioQueuePlayer_stop now q))) \<and>
      (wholeSamples pcmData \<longrightarrow>
         AudioQueuePlayer_addPCM bufferDuration now''
             (AudioQueuePlayer_init now' (AudioQueuePlayer_stop now q)) pcmData =
           Inr ((AudioQueuePlayer_init now' (AudioQueuePlayer_stop now q))
                \<lparr>queueContext :=
                   Some (stopSources now (sources q) nodes @
                         [scheduleSource bufferDuration (queueSampleRate q)
                            (toFloat32 (int16Array pcmData)) (max now' now'')]),
                 queueNextStartTime :=
                   max now' now'' +
                   bufferDuration (length (toFloat32 (int16Array pcmData))) (queueSampleRate q),
                 sources := [length nodes]\<rparr>)))"
proof (intro conjI impI)
  assume a: "audioContext p = Some nodes \<and> handlesOk (scheduledBuffers p) (audioContext p)"
  then have ctx: "audioContext p = Some nodes" by blast
  with a have ok: "handlesOk (scheduledBuffers p) (Some nodes)" by metis
  let ?p2 = "AudioStreamPlayer_init now' (AudioStreamPlayer_stop now p)"
  show "audioContext (AudioStreamPlayer_stop now p) = Some (stopSources now (scheduledBuffers p) nodes)"
    using ctx by (simp add: AudioStreamPlayer_stop_def)
  show "list_all (\<lambda>h. stoppedAt (stopSources now (scheduledBuffers p) nodes ! h) = Some now)
        (scheduledBuffers p)"
    using ok by (rule stopped_retained)
  show "list_all (\<lambda>n. stoppedAt n \<noteq> None) (stopSources now (scheduledBuffers p) nodes)"
    using ok by (rule stopped_all)
  show "scheduledBuffers (AudioStreamPlayer_stop now p) = []"
    and "\<not> isPlaying (AudioStreamPlayer_stop now p)"
    and "nextStartTime (AudioStreamPlayer_stop now p) = 0"
    by (simp_all add: AudioStreamPlayer_stop_def)
  show "nextStartTime ?p2 = now'"
    by (simp add: AudioStreamPlayer_init_def)
  show "handlesOk (scheduledBuffers ?p2) (audioContext ?p2)"
    by (rule handlesOk_AudioStreamPlayer_init [OF handlesOk_AudioStreamPlayer_stop [OF conjunct2 [OF a]]])
  {
    assume w: "wholeSamples pcmData"
    then have "even (length pcmData)" "length (toFloat32 (int16Array pcmData)) \<noteq> 0"
      using wholeSamples_decodes by (simp_all add: wholeSamples_def)
    then show "AudioStreamPlayer_addChunk bufferDuration now'' ?p2 pcmData =
           Inr (?p2
                \<lparr>audioContext :=
                   Some (stopSources now (scheduledBuffers p) nodes @
                         [scheduleSource bufferDuration (sampleRate p)
                            (toFloat32 (int16Array pcmData)) (max now' now'')]),
                 nextStartTime :=
                   max now' now'' +
                   bufferDuration (length (toFloat32 (int16Array pcmData))) (sampleRate p),
                 scheduledBuffers := [length nodes]\<rparr>)"
      using ctx
      by (simp add: AudioStreamPlayer_addChunk_def AudioStreamPlayer_init_def
          AudioStreamPlayer_stop_def Let_def scheduleSource_def)
  }
next
  assume a: "queueContext q = Some nodes \<and> handlesOk (sources q) (queueContext q)"
  then have ctx: "queueContext q = Some nodes" by blast
  with a have ok: "handlesOk (sources q) (Some nodes)" by metis
  let ?q2 = "AudioQueuePlayer_init now' (AudioQueuePlayer_stop now q)"
  show "queueContext (AudioQueuePlayer_stop now q) = Some (stopSources now (sources q) nodes)"
    using ctx by (simp add: AudioQueuePlayer_stop_def)
  show "list_all (\<lambda>h. stoppedAt (stopSources now (sources q) nodes ! h) = Some now) (sources q)"
    using ok by (rule stopped_retained)
  show "list_all (\<lambda>n. stoppedAt n \<noteq> None) (stopSources now (sources q) nodes)"
    using ok by (rule stopped_all)
  show "sources (AudioQueuePlayer_stop now q) = []"
    and "queueNextStartTime (AudioQueuePlayer_stop now q) = now"
    using ctx by (simp_all add: AudioQueuePlayer_stop_def)
  show "queueNextStartTime ?q2 = now'"
    by (simp add: AudioQueuePlayer_init_def)
  show "handlesOk (sources ?q2) (queueContext ?q2)"
    by (rule handlesOk_AudioQueuePlayer_init [OF handlesOk_AudioQueuePlayer_stop [OF conjunct2 [OF a]]])
  {
    assume w: "wholeSamples pcmData"
    then have "even (length pcmData)" "length (toFloat32 (int16Array pcmData)) \<noteq> 0"
      using wholeSamples_decodes by (simp_all add: wholeSamples_def)
    then show "AudioQueuePlayer_addPCM bufferDuration now'' ?q2 pcmData =
           Inr (?q2
                \<lparr>queueContext :=
                   Some (stopSources now (sources q) nodes @
                         [scheduleSource bufferDuration (queueSampleRate q)
                            (toFloat32 (int16Array pcmData)) (max now' now'')]),
                 queueNextStartTime :=
                   max now' now'' +
                   bufferDuration (length (toFloat32 (int16Array pcmData))) (queueSampleRate q),
                 sources := [length nodes]\<rparr>)"
      using ctx
      by (simp add: AudioQueuePlayer_addPCM_def AudioQueuePlayer_init_def
          AudioQueuePlayer_stop_def Let_def scheduleSource_def)
  }
qed

theorem stop_cancels_retained_and_resets_witness:
  "audioContext \<lparr>audioContext = Some [\<lparr>channelData = [1 / 32768], startAt = 0::int, duration = 9,
       stoppedAt = None\<rparr>], nextStartTime = 9, sampleRate = 22050, isPlaying = True,
       scheduledBuffers = [0]\<rparr> =
     Some [\<lparr>channelData = [1 / 32768], startAt = 0, duration = 9, stoppedAt = None\<rparr>] \<and>
   handlesOk [0] (Some [\<lparr>channelData = [1 / 32768], startAt = 0::int, duration = 9, stoppedAt = None\<rparr>]) \<and>
   wholeSamples [3, 0] \<and>
   audioContext (AudioStreamPlayer_stop 4
     \<lparr>audioContext = Some [\<lparr>channelData = [1 / 32768], startAt = 0::int, duration = 9,
       stoppedAt = None\<rparr>], nextStartTime = 9, sampleRate = 22050, isPlaying = True,
       scheduledBuffers = [0]\<rparr>) =
     Some [\<lparr>channelData = [1 / 32768], startAt = 0, duration = 9, stoppedAt = Some 4\<rparr>] \<and>
   AudioStreamPlayer_addChunk (\<lambda>n r. int n) 6
     (AudioStreamPlayer_init 5 (AudioStreamPlayer_stop 4
       \<lparr>audioContext = Some [\<lparr>channelData = [1 / 32768], startAt = 0::int, duration = 9,
         stoppedAt = None\<rparr>], nextStartTime = 9, sampleRate = 22050, isPlaying = True,
         scheduledBuffers = [0]\<rparr>)) [3, 0] =
     Inr \<lparr>audioContext = Some [\<lparr>channelData = [1 / 32768], startAt = 0, duration = 9,
                                 stoppedAt = Some 4\<rparr>,
                                \<lparr>channelData = [3 / 32768], startAt = 6, duration = 1,
                                 stoppedAt = None\<rparr>],
          nextStartTime = 7, sampleRate = 22050, isPlaying = True, scheduledBuffers = [1]\<rparr> \<and>
   queueContext \<lparr>queueContext = Some [\<lparr>channelData = [1 / 32768], startAt = 0::int, duration = 9,
       stoppedAt = None\<rparr>], queueNextStartTime = 9, queueSampleRate = 22050, sources = [0]\<rparr> =
     Some [\<lparr>channelData = [1 / 32768], startAt = 0, duration = 9, stoppedAt = None\<rparr>] \<and>
   queueNextStartTime (AudioQueuePlayer_stop 4
     \<lparr>queueContext = Some [\<lparr>channelData = [1 / 32768], startAt = 0::int, duration = 9,
       stoppedAt = None\<rparr>], queueNextStartTime = 9, queueSampleRate = 22050, sources = [0]\<rparr>) = 4 \<and>
   AudioQueuePlayer_addPCM (\<lambda>n r. int n) 6
     (AudioQueuePlayer_init 5 (AudioQueuePlayer_stop 4
       \<lparr>queueContext = Some [\<lparr>channelData = [1 / 32768], startAt = 0::int, duration = 9,
         stoppedAt = None\<rparr>], queueNextStartTime = 9, queueSampleRate = 22050, sources = [0]\<rparr>))
     [3, 0] =
     Inr \<lparr>queueContext = Some [\<lparr>channelData = [1 / 32768], startAt = 0, duration = 9,
                                 stoppedAt = Some 4\<rparr>,
                                \<lparr>channelData = [3 / 32768], startAt = 6, duration = 1,
                                 stoppedAt = None\<rparr>],
          queueNextStartTime = 7, queueSampleRate = 22050, sources = [1]\<rparr>"
proof -
  let ?s = "\<lparr>channelData = [1 / 32768], startAt = 0::int, duration = 9, stoppedAt = None\<rparr>"
  let ?p = "\<lparr>audioContext = Some [?s], nextStartTime = 9, sampleRate = 22050, isPlaying = True,
       scheduledBuffers = [0]\<rparr>"
  let ?q = "\<lparr>queueContext = Some [?s], queueNextStartTime = 9, queueSampleRate = 22050,
       sources = [0]\<rparr>"
  have ok: "handlesOk [0] (Some [?s])" by (simp add: handlesOk_def)
  have w: "wholeSamples [3, 0]" by (simp add: wholeSamples_def)
  note t = stop_cancels_retained_and_resets
    [of ?p "[?s]" 4 5 "[3, 0]" "\<lambda>n r. int n" 6 ?q]
  show ?thesis
    using t ok w by (simp add: stopSource_def toFloat32_def scheduleSource_def AudioStreamPlayer_init_def
        AudioStreamPlayer_stop_def AudioQueuePlayer_init_def AudioQueuePlayer_stop_def)
qed

text \<open>
  The claim as the specification words it fails for \<open>AudioStreamPlayer\<close>: after \<open>stop()\<close> at
  device time 1 the next start time is 0.
\<close>

theorem stop_resets_to_zero_counterexample:
  "AudioStreamPlayer_addChunk (\<lambda>n r. int n) 0
     (AudioStreamPlayer_init 0 (AudioStreamPlayer_new 22050)) [1, 0, 2, 0] =
     Inr \<lparr>audioContext = Some [\<lparr>channelData = [1 / 32768, 2 / 32768], startAt = 0, duration = 2,
                                 stoppedAt = None\<rparr>],
          nextStartTime = 2, sampleRate = 22050, isPlaying = True, scheduledBuffers = [0]\<rparr> \<and>
   nextStartTime (AudioStreamPlayer_stop 1
     \<lparr>audioContext = Some [\<lparr>channelData = [1 / 32768, 2 / 32768], startAt = 0::int, duration = 2,
                             stoppedAt = None\<rparr>],
      nextStartTime = 2, sampleRate = 22050, isPlaying = True, scheduledBuffers = [0]\<rparr>) = 0 \<and>
   (0::int) \<noteq> 1"
  by (simp add: AudioStreamPlayer_addChunk_def AudioStreamPlayer_init_def
      AudioStreamPlayer_new_def AudioStreamPlayer_stop_def toFloat32_def scheduleSource_def Let_def)

subsection \<open>Claim C3: byte ranges of the chunked stream\<close>




section \<open>The voice pipeline, the route and the hook: proofs\<close>

subsection \<open>Claim C6: what finalize sends\<close>

lemma foldl_onChunk_open:
  "wsOpen client \<Longrightarrow>
   foldl (VoicePipeline_onChunk lang) client chunks =
     client\<lparr>sent := sent client @
        map (\<lambda>chunk. \<lparr>msgText = chunk, msgLanguage = lang, is_final = False\<rparr>) chunks\<rparr>"
  by (induction chunks arbitrary: client)
    (simp_all add: VoicePipeline_onChunk_def TTSWebSocketClient_sendText_def)

lemma foldl_onChunk_closed:
  "\<not> wsOpen client \<Longrightarrow> foldl (VoicePipeline_onChunk lang) client chunks = client"
  by (induction chunks arbitrary: client)
    (simp_all add: VoicePipeline_onChunk_def TTSWebSocketClient_sendText_def)

text \<open>
  Claim C6, as amended. \<open>finalize()\<close> flushes the chunker. On an open socket the flushed
  chunk, when the buffer holds anything but whitespace, is sent with \<open>is_final\<close> false, and
  after it one frame with empty text and \<open>is_final\<close> true; the frames \<open>processToken\<close> sends
  carry \<open>is_final\<close> false as well, so that the empty frame is the only final one. On a
  socket that is not open nothing is sent.
\<close>

theorem finalize_sends_flushed_text_then_empty_final:
  "(wsOpen (ttsClient vp) \<longrightarrow>
      sent (ttsClient (VoicePipeline_finalize vp)) =
        sent (ttsClient vp) @
        (if trim (buffer (chunker vp)) = [] then []
         else [\<lparr>msgText = trim (buffer (chunker vp)), msgLanguage = language vp,
                is_final = False\<rparr>]) @
        [\<lparr>msgText = [], msgLanguage = language vp, is_final = True\<rparr>] \<and>
      sent (ttsClient (VoicePipeline_processToken vp token)) =
        sent (ttsClient vp) @
        map (\<lambda>chunk. \<lparr>msgText = chunk, msgLanguage = language vp, is_final = False\<rparr>)
          (fst (LLMTextChunker_addToken (chunker vp) token))) \<and>
   (\<not> wsOpen (ttsClient vp) \<longrightarrow>
      sent (ttsClient (VoicePipeline_finalize vp)) = sent (ttsClient vp) \<and>
      sent (ttsClient (VoicePipeline_processToken vp token)) = sent (ttsClient vp)) \<and>
   chunker (VoicePipeline_finalize vp) = snd (LLMTextChunker_flush (chunker vp))"
  by (auto simp: VoicePipeline_finalize_def VoicePipeline_processToken_def
      LLMTextChunker_flush_def emitChunk_def foldl_onChunk_open foldl_onChunk_closed
      TTSWebSocketClient_sendText_def VoicePipeline_onChunk_def split: prod.splits)

theorem finalize_sends_flushed_text_then_empty_final_witness:
  "wsOpen (ttsClient \<lparr>ttsClient = \<lparr>wsOpen = True, sent = []\<rparr>,
      chunker = \<lparr>buffer = js ''Hello '', minChars = 20\<rparr>, language = js ''english''\<rparr>) \<and>
   sent (ttsClient (VoicePipeline_finalize \<lparr>ttsClient = \<lparr>wsOpen = True, sent = []\<rparr>,
      chunker = \<lparr>buffer = js ''Hello '', minChars = 20\<rparr>, language = js ''english''\<rparr>)) =
     [\<lparr>msgText = js ''Hello'', msgLanguage = js ''english'', is_final = False\<rparr>,
      \<lparr>msgText = [], msgLanguage = js ''english'', is_final = True\<rparr>] \<and>
   \<not> wsOpen (ttsClient \<lparr>ttsClient = \<lparr>wsOpen = False, sent = []\<rparr>,
      chunker = \<lparr>buffer = js ''Hello '', minChars = 20\<rparr>, language = js ''english''\<rparr>) \<and>
   sent (ttsClient (VoicePipeline_finalize \<lparr>ttsClient = \<lparr>wsOpen = False, sent = []\<rparr>,
      chunker = \<lparr>buffer = js ''Hello '', minChars = 20\<rparr>, language = js ''english''\<rparr>)) = []"
proof -
  have t: "trim (js ''Hello '') = js ''Hello''" by (simp add: trim_def js_eval)
  have n: "js ''Hello'' \<noteq> []" by (simp add: js_def)
  show ?thesis
    using finalize_sends_flushed_text_then_empty_final
        [of "\<lparr>ttsClient = \<lparr>wsOpen = True, sent = []\<rparr>,
          chunker = \<lparr>buffer = js ''Hello '', minChars = 20\<rparr>, language = js ''english''\<rparr>"]
      finalize_sends_flushed_text_then_empty_final
        [of "\<lparr>ttsClient = \<lparr>wsOpen = False, sent = []\<rparr>,
          chunker = \<lparr>buffer = js ''Hello '', minChars = 20\<rparr>, language = js ''english''\<rparr>"]
      t n
    by simp
qed

text \<open>
  The claim as the specification words it fails: the flushed chunk \<open>Hello\<close> goes out with
  \<open>is_final\<close> false, and the frame that is final has a text that is empty.
\<close>

theorem flushed_text_is_not_final_counterexample:
  "sent (ttsClient (VoicePipeline_finalize \<lparr>ttsClient = \<lparr>wsOpen = True, sent = []\<rparr>,
      chunker = \<lparr>buffer = js ''Hello'', minChars = 20\<rparr>, language = js ''english''\<rparr>)) =
     [\<lparr>msgText = js ''Hello'', msgLanguage = js ''english'', is_final = False\<rparr>,
      \<lparr>msgText = [], msgLanguage = js ''english'', is_final = True\<rparr>] \<and>
   fst (LLMTextChunker_flush \<lparr>buffer = js ''Hello'', minChars = 20\<rparr>) = [js ''Hello''] \<and>
   trim [] = ([] :: jsstring)"
  by (simp add: VoicePipeline_finalize_def LLMTextChunker_flush_def emitChunk_def
      VoicePipeline_onChunk_def TTSWebSocketClient_sendText_def trim_def js_eval)

subsection \<open>Claim C4: transport errors\<close>



lemma token_event_kinds [simp]:
  "isTokenEvent (TokenEvent t)" "\<not> isAudioEvent (TokenEvent t)" "\<not> isErrorEvent (TokenEvent t)"
  "\<not> isTokenEvent (DoneEvent d)" "\<not> isAudioEvent (DoneEvent d)" "\<not> isErrorEvent (DoneEvent d)"
  by (simp_all add: isTokenEvent_def isAudioEvent_def isErrorEvent_def)
















end
